theory Spec2Isabelle
  imports Complex_Main "HOL-Library.Log_Nat"
begin

section \<open>Text and numbers as JavaScript has them\<close>

text \<open>
  \<^verbatim>\<open>server.js\<close> reads a session log line by line, keeps every line that
  \<^verbatim>\<open>JSON.parse\<close> accepts and interprets the decoded values with JavaScript's
  loose typing: truthiness tests, optional chaining, \<^verbatim>\<open>===\<close> against string
  constants and \<^verbatim>\<open>+=\<close>. The model keeps that typing, and the two value types
  underneath it: a string is a sequence of UTF-16 code units, a number is an IEEE 754
  double.
\<close>

subsection \<open>Strings\<close>

text \<open>
  A string is the list of its code units. \<open>lit\<close> turns a constant of the source,
  written in ASCII, into its code units.
\<close>

type_synonym jstring = "nat list"

definition lit :: "string \<Rightarrow> jstring" where
  "lit s = map of_char s"

fun startsWith :: "jstring \<Rightarrow> jstring \<Rightarrow> bool" where
  "startsWith s [] = True"
| "startsWith [] (p # ps) = False"
| "startsWith (c # cs) (p # ps) = (c = p \<and> startsWith cs ps)"

definition endsWith :: "jstring \<Rightarrow> jstring \<Rightarrow> bool" where
  "endsWith s p = startsWith (rev s) (rev p)"

fun includes_str :: "jstring \<Rightarrow> jstring \<Rightarrow> bool" where
  "includes_str [] p = (p = [])"
| "includes_str (c # cs) p = (startsWith (c # cs) p \<or> includes_str cs p)"

text \<open>
  White space as \<^verbatim>\<open>parseInt\<close>, \<^verbatim>\<open>trim\<close> and the class \<^verbatim>\<open>\s\<close> of a regular expression
  know it: tab, line feed, vertical tab, form feed, carriage return, space, no-break
  space, U+1680, U+2000 to U+200A, the line and paragraph separators, U+202F, U+205F,
  U+3000 and the byte order mark.
\<close>

definition isSpace :: "nat \<Rightarrow> bool" where
  "isSpace c =
     (c \<in> set [9, 10, 11, 12, 13, 32, 160, 5760, 8232, 8233, 8239, 8287, 12288, 65279]
      \<or> (8192 \<le> c \<and> c \<le> 8202))"

definition trim :: "jstring \<Rightarrow> jstring" where
  "trim s = rev (dropWhile isSpace (rev (dropWhile isSpace s)))"

text \<open>Case folding of the flag \<^verbatim>\<open>i\<close>, which for the letters of the source's pattern
  pairs each of them with its ASCII capital only.\<close>

definition lower :: "nat \<Rightarrow> nat" where
  "lower c = (if 65 \<le> c \<and> c \<le> 90 then c + 32 else c)"

subsection \<open>Numbers\<close>

text \<open>
  A number is a finite double, given by its exact value, an infinity or \<^verbatim>\<open>NaN\<close>.
  The negative zero is not told apart from zero: the source only tests numbers for
  truth, adds them and compares them, and all of these treat the two alike.
  \<open>toDouble q\<close> is the double nearest to \<open>q\<close>, ties to the even significand: \<open>expo\<close>
  is the binary exponent, not below that of the subnormal numbers, \<open>ulp\<close> the
  distance of neighbouring doubles there, and a result of magnitude \<open>2 ^ 1024\<close> or
  more is an infinity.
\<close>

datatype number = Fin rat | PosInf | NegInf | NaN

definition floorLog2 :: "rat \<Rightarrow> int" where
  "floorLog2 q =
     (let d = bitlen (fst (quotient_of q)) - bitlen (snd (quotient_of q))
      in if 2 powi d \<le> q then d else d - 1)"

definition roundHalfEven :: "rat \<Rightarrow> int" where
  "roundHalfEven x =
     (let f = \<lfloor>x\<rfloor> in
      if x - of_int f < 1 / 2 then f
      else if 1 / 2 < x - of_int f then f + 1
      else if even f then f else f + 1)"

definition expo :: "rat \<Rightarrow> int" where
  "expo q = (if q = 0 then - 1022 else max (floorLog2 \<bar>q\<bar>) (- 1022))"

definition ulp :: "rat \<Rightarrow> rat" where
  "ulp q = 2 powi (expo q - 52)"

definition roundFin :: "rat \<Rightarrow> rat" where
  "roundFin q = of_int (roundHalfEven (q / ulp q)) * ulp q"

definition overflowBound :: rat where
  "overflowBound = 2 powi 1024"

definition toDouble :: "rat \<Rightarrow> number" where
  "toDouble q =
     (let r = roundFin q in
      if overflowBound \<le> \<bar>r\<bar> then (if 0 < q then PosInf else NegInf) else Fin r)"

text \<open>The sum of two doubles: the exact sum, rounded.\<close>

fun numAdd :: "number \<Rightarrow> number \<Rightarrow> number" where
  "numAdd NaN y = NaN"
| "numAdd x NaN = NaN"
| "numAdd PosInf NegInf = NaN"
| "numAdd NegInf PosInf = NaN"
| "numAdd PosInf y = PosInf"
| "numAdd x PosInf = PosInf"
| "numAdd NegInf y = NegInf"
| "numAdd x NegInf = NegInf"
| "numAdd (Fin a) (Fin b) = toDouble (a + b)"

text \<open>\<^verbatim>\<open>x <= y\<close> on numbers; every comparison with \<^verbatim>\<open>NaN\<close> is false.\<close>

fun le :: "number \<Rightarrow> number \<Rightarrow> bool" where
  "le NaN y = False"
| "le x NaN = False"
| "le NegInf y = True"
| "le x PosInf = True"
| "le (Fin a) (Fin b) = (a \<le> b)"
| "le x y = False"

section \<open>Decoded log lines\<close>

text \<open>
  A line of a log, as text, is a JSON value whose numbers have the exact value of
  their decimal writing. \<^verbatim>\<open>JSON.parse\<close> rounds every number to a double
  (\<open>parsed\<close>). \<open>JNull\<close> stands for both \<^verbatim>\<open>null\<close> and \<^verbatim>\<open>undefined\<close>, which the source
  never tells apart (both are falsy, both short-circuit \<^verbatim>\<open>?.\<close>, reading a property of
  either throws).
\<close>

datatype json =
    JNull
  | JBool bool
  | JNum number
  | JStr jstring
  | JArr "json list"
  | JObj "(jstring \<times> json) list"

fun parsed :: "json \<Rightarrow> json" where
  "parsed (JNum (Fin q)) = JNum (toDouble q)"
| "parsed (JArr xs) = JArr (map parsed xs)"
| "parsed (JObj kv) = JObj (map (\<lambda>p. (fst p, parsed (snd p))) kv)"
| "parsed v = v"

datatype failure = IOError | TypeError

text \<open>JavaScript truthiness (\<^verbatim>\<open>if (v)\<close>, \<^verbatim>\<open>v || d\<close>, \<^verbatim>\<open>v && w\<close>).\<close>

fun truthy :: "json \<Rightarrow> bool" where
  "truthy JNull = False"
| "truthy (JBool b) = b"
| "truthy (JNum n) = (n \<noteq> Fin 0 \<and> n \<noteq> NaN)"
| "truthy (JStr s) = (s \<noteq> [])"
| "truthy (JArr xs) = True"
| "truthy (JObj kv) = True"

text \<open>
  \<open>get v k\<close> is \<^verbatim>\<open>v?.k\<close>: the own property \<open>k\<close> of an object (a repeated key keeps
  its last value, as \<^verbatim>\<open>JSON.parse\<close> does), undefined for every other value. It is
  used only with the property names of the source (\<^verbatim>\<open>type\<close>, \<^verbatim>\<open>id\<close>, \<^verbatim>\<open>message\<close>,
  \<^verbatim>\<open>usage\<close>, \<^verbatim>\<open>totalTokens\<close>, \<^verbatim>\<open>cost\<close>, \<^verbatim>\<open>total\<close>, \<^verbatim>\<open>model\<close>, \<^verbatim>\<open>stopReason\<close>,
  \<^verbatim>\<open>data\<close>, \<^verbatim>\<open>label\<close>, \<^verbatim>\<open>customType\<close>, \<^verbatim>\<open>modelId\<close>, \<^verbatim>\<open>content\<close>, \<^verbatim>\<open>text\<close>), none of
  which a prototype of a string, number, boolean, array or plain object defines.
  \<open>propOf v k\<close> is \<^verbatim>\<open>v.k\<close>, which throws a TypeError on null and undefined.
\<close>

fun get :: "json \<Rightarrow> jstring \<Rightarrow> json" where
  "get (JObj kv) k = (case map_of (rev kv) k of Some v \<Rightarrow> v | None \<Rightarrow> JNull)"
| "get v k = JNull"

fun propOf :: "json \<Rightarrow> jstring \<Rightarrow> failure + json" where
  "propOf JNull k = Inl TypeError"
| "propOf v k = Inr (get v k)"

text \<open>\<^verbatim>\<open>v?.[0]\<close>: the first element of an array, the first code unit of a string,
  the property \<^verbatim>\<open>"0"\<close> of an object.\<close>

fun index0 :: "json \<Rightarrow> json" where
  "index0 (JArr (x # xs)) = x"
| "index0 (JStr (c # cs)) = JStr [c]"
| "index0 (JObj kv) = get (JObj kv) (lit ''0'')"
| "index0 v = JNull"

subsection \<open>Addition and comparison of loosely typed values\<close>

text \<open>
  \<^verbatim>\<open>totalTokens += v\<close> is JavaScript's \<^verbatim>\<open>+\<close>: both operands are made primitive; if
  either is then a string the result is the concatenation of their string forms,
  otherwise the sum of their numeric forms. How a number prints and how a string
  reads as a number belong to the language runtime and are taken as parameters:
  \<open>numstr\<close> is \<^verbatim>\<open>Number.prototype.toString\<close>, \<open>strpos s\<close> says whether
  \<^verbatim>\<open>Number(s) > 0\<close>.
\<close>

record runtime =
  numstr :: "number \<Rightarrow> jstring"
  strpos :: "jstring \<Rightarrow> bool"

fun joinE :: "(failure + jstring) list \<Rightarrow> failure + jstring" where
  "joinE [] = Inr []"
| "joinE [x] = x"
| "joinE (x # y # ys) =
     (case x of Inl e \<Rightarrow> Inl e
      | Inr s \<Rightarrow> (case joinE (y # ys) of Inl e \<Rightarrow> Inl e | Inr t \<Rightarrow> Inr (s @ lit '','' @ t)))"

text \<open>
  \<^verbatim>\<open>String(v)\<close>. A plain object prints as \<^verbatim>\<open>[object Object]\<close> unless it has an own
  property \<^verbatim>\<open>toString\<close>, which after \<^verbatim>\<open>JSON.parse\<close> is never callable: the
  conversion then throws. An array prints its elements joined by commas, null as
  the empty string.
\<close>

fun toString :: "runtime \<Rightarrow> json \<Rightarrow> failure + jstring" where
  "toString rt JNull = Inr (lit ''null'')"
| "toString rt (JBool b) = Inr (if b then lit ''true'' else lit ''false'')"
| "toString rt (JNum n) = Inr (numstr rt n)"
| "toString rt (JStr s) = Inr s"
| "toString rt (JObj kv) =
     (if lit ''toString'' \<in> fst ` set kv then Inl TypeError else Inr (lit ''[object Object]''))"
| "toString rt (JArr xs) =
     joinE (map (\<lambda>x. if x = JNull then Inr [] else toString rt x) xs)"

fun toPrimitive :: "runtime \<Rightarrow> json \<Rightarrow> failure + json" where
  "toPrimitive rt (JArr xs) = map_sum id JStr (toString rt (JArr xs))"
| "toPrimitive rt (JObj kv) = map_sum id JStr (toString rt (JObj kv))"
| "toPrimitive rt v = Inr v"

fun toNumber :: "json \<Rightarrow> number" where
  "toNumber (JNum n) = n"
| "toNumber (JBool b) = (if b then Fin 1 else Fin 0)"
| "toNumber v = Fin 0"

fun isString :: "json \<Rightarrow> bool" where
  "isString (JStr s) = True"
| "isString v = False"

definition js_add :: "runtime \<Rightarrow> json \<Rightarrow> json \<Rightarrow> failure + json" where
  "js_add rt a b =
     (case toPrimitive rt a of Inl e \<Rightarrow> Inl e
      | Inr pa \<Rightarrow>
         (case toPrimitive rt b of Inl e \<Rightarrow> Inl e
          | Inr pb \<Rightarrow>
             if isString pa \<or> isString pb
             then (case toString rt pa of Inl e \<Rightarrow> Inl e
                   | Inr sa \<Rightarrow> (case toString rt pb of Inl e \<Rightarrow> Inl e
                               | Inr sb \<Rightarrow> Inr (JStr (sa @ sb))))
             else Inr (JNum (numAdd (toNumber pa) (toNumber pb)))))"

text \<open>\<^verbatim>\<open>v > 0\<close> for a total, which is a number or a string.\<close>

fun js_positive :: "runtime \<Rightarrow> json \<Rightarrow> bool" where
  "js_positive rt (JNum n) = (le (Fin 0) n \<and> n \<noteq> Fin 0)"
| "js_positive rt (JStr s) = strpos rt s"
| "js_positive rt (JBool b) = b"
| "js_positive rt v = False"

text \<open>\<^verbatim>\<open>a || b\<close>.\<close>

definition js_or :: "json \<Rightarrow> json \<Rightarrow> json" where
  "js_or a b = (if truthy a then a else b)"

subsection \<open>\<^verbatim>\<open>Array.prototype.find\<close> and \<^verbatim>\<open>filter\<close> with a callback that may throw\<close>

fun findE :: "('a \<Rightarrow> failure + bool) \<Rightarrow> 'a list \<Rightarrow> failure + 'a option" where
  "findE p [] = Inr None"
| "findE p (x # xs) =
     (case p x of Inl e \<Rightarrow> Inl e
      | Inr b \<Rightarrow> if b then Inr (Some x) else findE p xs)"

fun filterE :: "('a \<Rightarrow> failure + bool) \<Rightarrow> 'a list \<Rightarrow> failure + 'a list" where
  "filterE p [] = Inr []"
| "filterE p (x # xs) =
     (case p x of Inl e \<Rightarrow> Inl e
      | Inr b \<Rightarrow>
         (case filterE p xs of Inl e \<Rightarrow> Inl e
          | Inr ys \<Rightarrow> Inr (if b then x # ys else ys)))"

section \<open>The two regular expressions of the source\<close>

text \<open>
  Neither pattern has the flag \<^verbatim>\<open>u\<close>, so both match code unit by code unit.
  \<^verbatim>\<open>extractSessionId\<close> matches \<^verbatim>\<open>/^([a-f0-9-]+)\.jsonl/\<close>: the longest run of
  lower-case hexadecimal digits and dashes at the start of the name, which must be
  non-empty and followed by \<^verbatim>\<open>.jsonl\<close> (a shorter run cannot be followed by a dot,
  so there is nothing to backtrack to). Without a match the name itself is the
  identifier.
\<close>

definition isHexDash :: "nat \<Rightarrow> bool" where
  "isHexDash c = (c \<in> set (lit ''abcdef0123456789-''))"

definition extractSessionId :: "jstring \<Rightarrow> jstring" where
  "extractSessionId filename =
     (let run = takeWhile isHexDash filename in
      if run \<noteq> [] \<and> startsWith (dropWhile isHexDash filename) (lit ''.jsonl'')
      then run else filename)"

text \<open>
  The label pattern is \<^verbatim>\<open>/label['":\s]+([^'"}\n]+)/i\<close>. After the word, the first
  class takes the longest run of quotes (code units 39 and 34), colons (58) and white
  space; the group then needs at least one code unit that is no quote, closing brace
  (125) or line feed (10). Colons and blanks belong to both classes, so when the run
  is followed by a closing brace or by the end of the text, the matcher gives code
  units of the run back, one at a time, until the group can start: \<open>groupFrom k r\<close>
  tries a run of length \<open>k\<close>, then \<open>k - 1\<close>, down to one. A position where this fails
  is skipped and the search goes on to the right.
\<close>

definition classA :: "nat \<Rightarrow> bool" where
  "classA c = (c = 39 \<or> c = 34 \<or> c = 58 \<or> isSpace c)"

definition classB :: "nat \<Rightarrow> bool" where
  "classB c = (c \<noteq> 39 \<and> c \<noteq> 34 \<and> c \<noteq> 125 \<and> c \<noteq> 10)"

fun groupFrom :: "nat \<Rightarrow> jstring \<Rightarrow> jstring option" where
  "groupFrom 0 r = None"
| "groupFrom (Suc k) r =
     (case takeWhile classB (drop (Suc k) r) of
        [] \<Rightarrow> groupFrom k r
      | g # gs \<Rightarrow> Some (g # gs))"

definition matchAfterWord :: "jstring \<Rightarrow> jstring option" where
  "matchAfterWord r = groupFrom (length (takeWhile classA r)) r"

fun labelMatch :: "jstring \<Rightarrow> jstring option" where
  "labelMatch [] = None"
| "labelMatch (c # cs) =
     (if map lower (take 5 (c # cs)) = lit ''label''
      then (case matchAfterWord (drop 5 (c # cs)) of
              Some g \<Rightarrow> Some g
            | None \<Rightarrow> labelMatch cs)
      else labelMatch cs)"

section \<open>The log store\<close>

text \<open>
  A directory entry is a name with what the file system answers for it:
  \<open>fileStats\<close> is the result of \<^verbatim>\<open>fs.statSync\<close> (\<open>None\<close> when it throws: a dangling
  link, a file renamed between the listing and the call), \<open>fileLines\<close> the lines
  read from the file (\<open>None\<close> when reading fails). A line is \<open>Some v\<close> when it is not
  blank and is the JSON text of \<open>v\<close>, \<open>None\<close> when it is blank or malformed.
  Times are milliseconds since the epoch, as \<^verbatim>\<open>Date.prototype.getTime\<close> gives them:
  whole numbers of at most 8 640 000 000 000 000 in magnitude, each of them a double.
  The four values of a status are constants of the source and are kept as such.
\<close>

record stats =
  mtime :: int
  birthtime :: int

record entry =
  fileName :: jstring
  fileStats :: "stats option"
  fileLines :: "json option list option"

record summary =
  sessionId :: jstring
  sessionKey :: jstring
  label :: json
  model :: json
  totalTokens :: json
  totalCost :: json
  status :: string
  messageCount :: nat
  lastUpdated :: int
  createdAt :: int
  filePath :: jstring
  isDeleted :: bool

text \<open>Lines 44 to 52: blank and malformed lines are skipped, the others are decoded
  by \<^verbatim>\<open>JSON.parse\<close>, the order is kept.\<close>

fun decoded :: "json option list \<Rightarrow> json list" where
  "decoded [] = []"
| "decoded (None # ls) = decoded ls"
| "decoded (Some v # ls) = parsed v # decoded ls"

section \<open>\<^verbatim>\<open>parseSessionFile\<close>\<close>

text \<open>The callbacks of lines 55, 59, 85, 90 and 101. Each reads \<^verbatim>\<open>l.type\<close> or
  \<^verbatim>\<open>l.customType\<close> first, which throws when the line decoded to \<^verbatim>\<open>null\<close>.\<close>

definition isSessionLine :: "json \<Rightarrow> failure + bool" where
  "isSessionLine l =
     (case propOf l (lit ''type'') of Inl e \<Rightarrow> Inl e
      | Inr t \<Rightarrow> Inr (t = JStr (lit ''session'')))"

definition isMessageLine :: "json \<Rightarrow> failure + bool" where
  "isMessageLine l =
     (case propOf l (lit ''type'') of Inl e \<Rightarrow> Inl e
      | Inr t \<Rightarrow> Inr (t = JStr (lit ''message'') \<and> truthy (get l (lit ''message''))))"

definition isSpawnLine :: "json \<Rightarrow> failure + bool" where
  "isSpawnLine l =
     (case propOf l (lit ''type'') of Inl e \<Rightarrow> Inl e
      | Inr t \<Rightarrow>
         Inr (t = JStr (lit ''custom'') \<and> truthy (get (get l (lit ''data'')) (lit ''label''))))"

definition isModelLine :: "json \<Rightarrow> failure + bool" where
  "isModelLine l =
     (case propOf l (lit ''customType'') of Inl e \<Rightarrow> Inl e
      | Inr t \<Rightarrow> Inr (t = JStr (lit ''model-snapshot'')))"

text \<open>
  \<^verbatim>\<open>text?.includes('Your Task')\<close>: undefined for a missing text, the substring test
  for a string, membership for an array; any other value has no callable
  \<^verbatim>\<open>includes\<close> and the call throws.
\<close>

fun textIncludes :: "json \<Rightarrow> jstring \<Rightarrow> failure + bool" where
  "textIncludes JNull p = Inr False"
| "textIncludes (JStr s) p = Inr (includes_str s p)"
| "textIncludes (JArr xs) p = Inr (JStr p \<in> set xs)"
| "textIncludes v p = Inl TypeError"

definition taskText :: "json \<Rightarrow> json" where
  "taskText l = get (index0 (get (get l (lit ''message'')) (lit ''content''))) (lit ''text'')"

definition isTaskLine :: "json \<Rightarrow> failure + bool" where
  "isTaskLine l =
     (case propOf l (lit ''type'') of Inl e \<Rightarrow> Inl e
      | Inr t \<Rightarrow>
         if t = JStr (lit ''message'') then textIncludes (taskText l) (lit ''Your Task'')
         else Inr False)"

text \<open>Lines 62 to 81: the accumulation pass over the message lines.\<close>

record totals =
  accTokens :: json
  accCost :: json
  accModel :: json
  lastStatus :: string

definition step :: "runtime \<Rightarrow> totals \<Rightarrow> json \<Rightarrow> failure + totals" where
  "step rt a line =
     (case propOf line (lit ''message'') of Inl e \<Rightarrow> Inl e
      | Inr msg \<Rightarrow>
         (case
            (if truthy (get msg (lit ''usage'')) then
               (case js_add rt (accTokens a)
                       (js_or (get (get msg (lit ''usage'')) (lit ''totalTokens''))
                              (JNum (Fin 0))) of
                  Inl e \<Rightarrow> Inl e
                | Inr t \<Rightarrow>
                   if truthy (get (get (get msg (lit ''usage'')) (lit ''cost'')) (lit ''total''))
                   then
                     (case js_add rt (accCost a)
                             (get (get (get msg (lit ''usage'')) (lit ''cost'')) (lit ''total'')) of
                        Inl e \<Rightarrow> Inl e
                      | Inr c \<Rightarrow> Inr (t, c))
                   else Inr (t, accCost a))
             else Inr (accTokens a, accCost a)) of
            Inl e \<Rightarrow> Inl e
          | Inr (t, c) \<Rightarrow>
             Inr \<lparr>accTokens = t, accCost = c,
                  accModel = (if truthy (get msg (lit ''model'')) then get msg (lit ''model'')
                              else accModel a),
                  lastStatus = (if truthy (get msg (lit ''stopReason''))
                                then (if get msg (lit ''stopReason'') = JStr (lit ''toolUse'')
                                      then ''running'' else ''completed'')
                                else lastStatus a)\<rparr>))"

fun accumulate :: "runtime \<Rightarrow> totals \<Rightarrow> json list \<Rightarrow> failure + totals" where
  "accumulate rt a [] = Inr a"
| "accumulate rt a (line # ls) =
     (case step rt a line of Inl e \<Rightarrow> Inl e
      | Inr a' \<Rightarrow> accumulate rt a' ls)"

definition initialTotals :: totals where
  "initialTotals =
     \<lparr>accTokens = JNum (Fin 0), accCost = JNum (Fin 0), accModel = JStr (lit ''unknown''),
      lastStatus = ''idle''\<rparr>"

text \<open>Line 56: the session key, a template string around the first session line's id.\<close>

definition resolveSessionKey :: "runtime \<Rightarrow> json option \<Rightarrow> jstring \<Rightarrow> failure + jstring" where
  "resolveSessionKey rt sessionLine sid =
     (let idv = (case sessionLine of None \<Rightarrow> JNull | Some l \<Rightarrow> get l (lit ''id'')) in
      if truthy idv
      then (case toString rt idv of Inl e \<Rightarrow> Inl e
            | Inr s \<Rightarrow> Inr (lit ''agent:main:'' @ s))
      else Inr sid)"

text \<open>Lines 84 to 98: the label.\<close>

definition resolveLabel :: "json list \<Rightarrow> jstring \<Rightarrow> failure + json" where
  "resolveLabel lines key =
     (case findE isSpawnLine lines of Inl e \<Rightarrow> Inl e
      | Inr spawnLine \<Rightarrow>
         (let lbl = (case spawnLine of None \<Rightarrow> JNull
                     | Some l \<Rightarrow> get (get l (lit ''data'')) (lit ''label'')) in
          if truthy lbl then Inr lbl
          else if includes_str key (lit ''subagent'') then
            (case findE isTaskLine lines of Inl e \<Rightarrow> Inl e
             | Inr None \<Rightarrow> Inr (JStr (lit ''Sub-agent''))
             | Inr (Some taskLine) \<Rightarrow>
                (case taskText taskLine of
                   JStr text \<Rightarrow>
                     Inr (JStr (case labelMatch text of
                                  Some g \<Rightarrow> trim g
                                | None \<Rightarrow> lit ''Sub-agent''))
                 | _ \<Rightarrow> Inl TypeError))
          else Inr (JStr (lit ''Main''))))"

text \<open>Lines 100 to 104: the model override.\<close>

definition overrideModel :: "json list \<Rightarrow> json \<Rightarrow> failure + json" where
  "overrideModel lines m =
     (case findE isModelLine lines of Inl e \<Rightarrow> Inl e
      | Inr modelLine \<Rightarrow>
         (let mid = (case modelLine of None \<Rightarrow> JNull
                     | Some l \<Rightarrow> get (get l (lit ''data'')) (lit ''modelId'')) in
          Inr (if truthy mid then mid else m)))"

text \<open>Lines 106 to 112: the status.\<close>

definition resolveStatus :: "runtime \<Rightarrow> bool \<Rightarrow> json \<Rightarrow> string \<Rightarrow> string" where
  "resolveStatus rt deleted tokens lastSt =
     (let status0 = (if deleted then ''archived'' else ''idle'') in
      if js_positive rt tokens \<and> \<not> deleted then lastSt
      else if deleted then ''archived''
      else status0)"

definition parseLines ::
  "runtime \<Rightarrow> jstring \<Rightarrow> stats \<Rightarrow> json list \<Rightarrow> failure + summary" where
  "parseLines rt filename st lines =
     (let sid = extractSessionId filename;
          deleted = includes_str filename (lit ''.deleted'') in
      case findE isSessionLine lines of Inl e \<Rightarrow> Inl e
      | Inr sessionLine \<Rightarrow>
      (case resolveSessionKey rt sessionLine sid of Inl e \<Rightarrow> Inl e
      | Inr key \<Rightarrow>
      (case filterE isMessageLine lines of Inl e \<Rightarrow> Inl e
      | Inr messagelines \<Rightarrow>
      (case accumulate rt initialTotals messagelines of Inl e \<Rightarrow> Inl e
      | Inr a \<Rightarrow>
      (case resolveLabel lines key of Inl e \<Rightarrow> Inl e
      | Inr lbl \<Rightarrow>
      (case overrideModel lines (accModel a) of Inl e \<Rightarrow> Inl e
      | Inr m \<Rightarrow>
         Inr \<lparr>sessionId = sid, sessionKey = key, label = lbl, model = m,
              totalTokens = accTokens a, totalCost = accCost a,
              status = resolveStatus rt deleted (accTokens a) (lastStatus a),
              messageCount = length messagelines,
              lastUpdated = mtime st, createdAt = birthtime st,
              filePath = filename, isDeleted = deleted\<rparr>))))))"

text \<open>
  The whole function: the metadata of line 32, the read of lines 38 to 52, then the
  interpretation. A thrown exception rejects the promise the function returns, and
  so does a failed read, which reaches the loop of line 44 through the readline
  interface. \<open>filePath\<close> is kept relative to the directory of the file.
\<close>

definition parseSessionFile :: "runtime \<Rightarrow> entry \<Rightarrow> failure + summary" where
  "parseSessionFile rt f =
     (case fileStats f of None \<Rightarrow> Inl IOError
      | Some st \<Rightarrow>
         (case fileLines f of None \<Rightarrow> Inl IOError
          | Some ls \<Rightarrow> parseLines rt (fileName f) st (decoded ls)))"

section \<open>The endpoints\<close>

datatype http_error = NotFound404 | ServerError500

text \<open>The product, the difference and the strict order of numbers, for line 137 and
  the comparisons of lines 108 and 154.\<close>

definition signedInf :: "rat \<Rightarrow> number" where
  "signedInf a = (if a = 0 then NaN else if 0 < a then PosInf else NegInf)"

fun numMul :: "number \<Rightarrow> number \<Rightarrow> number" where
  "numMul NaN y = NaN"
| "numMul x NaN = NaN"
| "numMul (Fin a) (Fin b) = toDouble (a * b)"
| "numMul (Fin a) PosInf = signedInf a"
| "numMul (Fin a) NegInf = signedInf (- a)"
| "numMul PosInf (Fin b) = signedInf b"
| "numMul NegInf (Fin b) = signedInf (- b)"
| "numMul PosInf PosInf = PosInf"
| "numMul PosInf NegInf = NegInf"
| "numMul NegInf PosInf = NegInf"
| "numMul NegInf NegInf = PosInf"

fun numNeg :: "number \<Rightarrow> number" where
  "numNeg (Fin a) = Fin (- a)"
| "numNeg PosInf = NegInf"
| "numNeg NegInf = PosInf"
| "numNeg NaN = NaN"

definition numSub :: "number \<Rightarrow> number \<Rightarrow> number" where
  "numSub x y = numAdd x (numNeg y)"

definition lt :: "number \<Rightarrow> number \<Rightarrow> bool" where
  "lt x y = (le x y \<and> x \<noteq> y)"

text \<open>
  \<^verbatim>\<open>parseInt\<close>: leading white space is dropped, then an optional sign, then an
  optional \<^verbatim>\<open>0x\<close> that selects radix 16; the digits up to the first code unit that
  is no digit of the radix are the value, which is rounded to a double, and no digit
  at all is \<^verbatim>\<open>NaN\<close>. (Beyond twenty decimal digits the language lets an implementation
  round less closely; the nearest double is taken here.) Express hands an absent query parameter over as \<^verbatim>\<open>undefined\<close>,
  which \<^verbatim>\<open>parseInt\<close> reads as the text \<^verbatim>\<open>undefined\<close>. The parameter is taken to be a
  single string when present.
\<close>

definition digitVal :: "nat \<Rightarrow> nat option" where
  "digitVal n =
     (if 48 \<le> n \<and> n \<le> 57 then Some (n - 48)
      else if 97 \<le> n \<and> n \<le> 122 then Some (n - 87)
      else if 65 \<le> n \<and> n \<le> 90 then Some (n - 55)
      else None)"

definition isDigitOf :: "nat \<Rightarrow> nat \<Rightarrow> bool" where
  "isDigitOf radix c = (case digitVal c of None \<Rightarrow> False | Some d \<Rightarrow> d < radix)"

definition digitsValue :: "nat \<Rightarrow> jstring \<Rightarrow> int" where
  "digitsValue radix ds =
     foldl (\<lambda>v c. v * int radix + int (case digitVal c of None \<Rightarrow> 0 | Some d \<Rightarrow> d)) 0 ds"

definition parseInt :: "jstring \<Rightarrow> number" where
  "parseInt s =
     (let s1 = dropWhile isSpace s;
          sign = (if startsWith s1 (lit ''-'') then - 1 else (1::int));
          s2 = (if startsWith s1 (lit ''-'') \<or> startsWith s1 (lit ''+'') then drop 1 s1 else s1);
          hex = (startsWith s2 (lit ''0x'') \<or> startsWith s2 (lit ''0X''));
          radix = (if hex then 16 else 10);
          s3 = (if hex then drop 2 s2 else s2);
          ds = takeWhile (isDigitOf radix) s3
      in if ds = [] then NaN else toDouble (of_int (sign * digitsValue radix ds)))"

record query =
  activeMinutesParam :: "jstring option"
  includeArchivedParam :: "jstring option"

text \<open>Line 135: \<^verbatim>\<open>parseInt(req.query.activeMinutes) || 1440\<close>.\<close>

definition activeMinutes :: "query \<Rightarrow> number" where
  "activeMinutes q =
     (let n = parseInt (case activeMinutesParam q of None \<Rightarrow> lit ''undefined'' | Some s \<Rightarrow> s)
      in if n = NaN \<or> n = Fin 0 then Fin 1440 else n)"

text \<open>Line 136.\<close>

definition includeArchived :: "query \<Rightarrow> bool" where
  "includeArchived q = (includeArchivedParam q \<noteq> Some (lit ''false''))"

text \<open>Line 137: \<^verbatim>\<open>Date.now() - (activeMinutes * 60 * 1000)\<close>.\<close>

definition cutoffOf :: "int \<Rightarrow> number \<Rightarrow> number" where
  "cutoffOf now minutes = numSub (Fin (of_int now)) (numMul (numMul minutes (Fin 60)) (Fin 1000))"

text \<open>Lines 139 to 145: the candidates, by name.\<close>

definition isCandidate :: "bool \<Rightarrow> jstring \<Rightarrow> bool" where
  "isCandidate archivedToo f =
     ((endsWith f (lit ''.jsonl'') \<or> (archivedToo \<and> includes_str f (lit ''.jsonl.deleted'')))
      \<and> \<not> endsWith f (lit ''.lock'') \<and> \<not> endsWith f (lit ''.json''))"

text \<open>
  Lines 149 to 162: the loop. The metadata read of line 151 stands before the
  \<^verbatim>\<open>try\<close>: when it throws, the loop is left and the handler of line 171 answers.
  A rejected \<^verbatim>\<open>parseSessionFile\<close> is caught inside the loop.
\<close>

fun scan :: "runtime \<Rightarrow> number \<Rightarrow> entry list \<Rightarrow> summary list \<Rightarrow> failure + summary list" where
  "scan rt cutoff [] sessions = Inr sessions"
| "scan rt cutoff (file # files) sessions =
     (case fileStats file of None \<Rightarrow> Inl IOError
      | Some st \<Rightarrow>
         if lt (Fin (of_int (mtime st))) cutoff then scan rt cutoff files sessions
         else (case parseSessionFile rt file of
                 Inr session \<Rightarrow> scan rt cutoff files (sessions @ [session])
               | Inl e \<Rightarrow> scan rt cutoff files sessions))"

record listing =
  count :: nat
  sessions :: "summary list"

text \<open>
  \<^verbatim>\<open>GET /api/sessions\<close>. \<open>now\<close> is \<^verbatim>\<open>Date.now()\<close>; the directory is \<open>None\<close> when
  \<^verbatim>\<open>readdirSync\<close> throws. The sort is stable and descending in \<open>lastUpdated\<close>.
\<close>

definition listSessions ::
  "runtime \<Rightarrow> int \<Rightarrow> query \<Rightarrow> entry list option \<Rightarrow> http_error + listing" where
  "listSessions rt now q dir =
     (let cutoff = cutoffOf now (activeMinutes q) in
      case dir of None \<Rightarrow> Inl ServerError500
      | Some entries \<Rightarrow>
         (case scan rt cutoff
                 (filter (\<lambda>f. isCandidate (includeArchived q) (fileName f)) entries) [] of
            Inl e \<Rightarrow> Inl ServerError500
          | Inr found \<Rightarrow>
             (let ordered = sort_key (\<lambda>s. - lastUpdated s) found in
              Inr \<lparr>count = length ordered, sessions = ordered\<rparr>)))"

text \<open>
  \<^verbatim>\<open>GET /api/sessions/:sessionId\<close>. The identifier is any non-empty text: Express
  decodes the path segment, so it may hold separators and dots. Line 182 joins it,
  with \<^verbatim>\<open>.jsonl\<close> appended, to the directory, and \<^verbatim>\<open>path.join\<close> folds \<^verbatim>\<open>.\<close> and \<^verbatim>\<open>..\<close>
  segments: the path may name a file that the identifier does not spell, inside the
  directory or outside. \<open>resolve p\<close> is what the file system holds at the join of the
  directory and \<open>p\<close>: \<open>None\<close> when \<^verbatim>\<open>existsSync\<close> denies the path, and otherwise the
  file, under the base name of the joined path. Only when the path does not exist is
  the directory listed (line 186), and the names of the listing are compared as they
  stand (line 187).
\<close>

definition getSession ::
  "runtime \<Rightarrow> (jstring \<Rightarrow> entry option) \<Rightarrow> entry list option \<Rightarrow> jstring
     \<Rightarrow> http_error + summary" where
  "getSession rt resolve dir sid =
     (case (case resolve (sid @ lit ''.jsonl'') of
              Some f \<Rightarrow> Inr (Some f)
            | None \<Rightarrow>
               (case dir of None \<Rightarrow> Inl IOError
                | Some entries \<Rightarrow>
                   Inr (find (\<lambda>f. startsWith (fileName f) (sid @ lit ''.jsonl.deleted''))
                          entries))) of
        Inl e \<Rightarrow> Inl ServerError500
      | Inr None \<Rightarrow> Inl NotFound404
      | Inr (Some f) \<Rightarrow>
         (case parseSessionFile rt f of
            Inl e \<Rightarrow> Inl ServerError500
          | Inr session \<Rightarrow> Inr session))"


section \<open>Notions the properties are stated with\<close>

text \<open>The callbacks of \<^verbatim>\<open>find\<close> and \<^verbatim>\<open>filter\<close> on a line that is not \<^verbatim>\<open>null\<close>.\<close>

definition isSession :: "json \<Rightarrow> bool" where
  "isSession l = (get l (lit ''type'') = JStr (lit ''session''))"

definition isMessage :: "json \<Rightarrow> bool" where
  "isMessage l = (get l (lit ''type'') = JStr (lit ''message'') \<and> truthy (get l (lit ''message'')))"


definition isModelSnapshot :: "json \<Rightarrow> bool" where
  "isModelSnapshot l = (get l (lit ''customType'') = JStr (lit ''model-snapshot''))"

text \<open>A message event whose payload is present, whatever its truth value.\<close>

definition hasMessagePayload :: "json \<Rightarrow> bool" where
  "hasMessagePayload l =
     (get l (lit ''type'') = JStr (lit ''message'') \<and> get l (lit ''message'') \<noteq> JNull)"

definition usageOf :: "json \<Rightarrow> json" where
  "usageOf l = get (get l (lit ''message'')) (lit ''usage'')"

definition hasUsage :: "json \<Rightarrow> bool" where
  "hasUsage l = truthy (usageOf l)"

text \<open>What a message event contributes: an absent field counts as zero.\<close>

definition tokensOf :: "json \<Rightarrow> number" where
  "tokensOf l = (case get (usageOf l) (lit ''totalTokens'') of JNum n \<Rightarrow> n | _ \<Rightarrow> Fin 0)"

definition costOf :: "json \<Rightarrow> number" where
  "costOf l =
     (case get (get (usageOf l) (lit ''cost'')) (lit ''total'') of JNum n \<Rightarrow> n | _ \<Rightarrow> Fin 0)"

text \<open>A valid token or cost field is a number other than \<^verbatim>\<open>NaN\<close>, or is absent.\<close>

fun numberOrAbsent :: "json \<Rightarrow> bool" where
  "numberOrAbsent JNull = True"
| "numberOrAbsent (JNum n) = (n \<noteq> NaN)"
| "numberOrAbsent v = False"

definition validUsage :: "json \<Rightarrow> bool" where
  "validUsage l = (numberOrAbsent (get (usageOf l) (lit ''totalTokens''))
     \<and> numberOrAbsent (get (get (usageOf l) (lit ''cost'')) (lit ''total'')))"

text \<open>
  The doubles: the rationals \<open>n * 2 ^ j\<close> with a significand \<open>n\<close> of at most 53 bits
  and an exponent \<open>j\<close> of at least \<open>- 1074\<close>, below \<open>2 ^ 1024\<close> in magnitude.
\<close>

definition isDouble :: "rat \<Rightarrow> bool" where
  "isDouble q =
     (\<exists>n j. q = of_int n * 2 powi j \<and> \<bar>n\<bar> \<le> 2 ^ 53 \<and> - 1074 \<le> j \<and> \<bar>q\<bar> < overflowBound)"

text \<open>The values that a number of the program can have.\<close>

fun isJsNumber :: "number \<Rightarrow> bool" where
  "isJsNumber (Fin q) = isDouble q"
| "isJsNumber x = True"

text \<open>
  The sum of a list of numbers as the loop of line 67 takes it, from the left and
  rounded after every addition, and the exact sum of their values. The two agree
  on a list of finite numbers whose partial sums are all doubles (\<open>exactSums\<close>), as
  are those of whole numbers as long as the sums stay within \<open>2 ^ 53\<close>.
\<close>

definition floatSum :: "number list \<Rightarrow> number" where
  "floatSum xs = foldl numAdd (Fin 0) xs"

fun valueOf :: "number \<Rightarrow> rat" where
  "valueOf (Fin q) = q"
| "valueOf x = 0"

fun isFin :: "number \<Rightarrow> bool" where
  "isFin (Fin q) = True"
| "isFin x = False"

fun exactFrom :: "rat \<Rightarrow> number list \<Rightarrow> bool" where
  "exactFrom a [] = True"
| "exactFrom a (x # xs) = (isFin x \<and> isDouble (a + valueOf x) \<and> exactFrom (a + valueOf x) xs)"

definition exactSums :: "number list \<Rightarrow> bool" where
  "exactSums xs = exactFrom 0 xs"

text \<open>The status and the model that the message events leave behind: those of the
  last message event that has a stop reason, or a model.\<close>

definition stopReasonOf :: "json \<Rightarrow> json" where
  "stopReasonOf l = get (get l (lit ''message'')) (lit ''stopReason'')"

definition stopStatus :: "json \<Rightarrow> string" where
  "stopStatus l =
     (if stopReasonOf l = JStr (lit ''toolUse'') then ''running'' else ''completed'')"

definition lastStopStatus :: "json list \<Rightarrow> string" where
  "lastStopStatus lines =
     (case filter (\<lambda>l. truthy (stopReasonOf l)) (filter isMessage lines) of
        [] \<Rightarrow> ''idle''
      | x # xs \<Rightarrow> stopStatus (last (x # xs)))"

definition modelOf :: "json \<Rightarrow> json" where
  "modelOf l = get (get l (lit ''message'')) (lit ''model'')"

definition messageModel :: "json list \<Rightarrow> json" where
  "messageModel lines =
     (case filter (\<lambda>l. truthy (modelOf l)) (filter isMessage lines) of
        [] \<Rightarrow> JStr (lit ''unknown'')
      | x # xs \<Rightarrow> modelOf (last (x # xs)))"

definition snapshotModel :: "json \<Rightarrow> json" where
  "snapshotModel l = get (get l (lit ''data'')) (lit ''modelId'')"


subsection \<open>The label of a sub-agent session, stated without the matcher\<close>




text \<open>
  An occurrence of the label pattern at the start of \<open>r\<close>, with separator \<open>sep\<close> and
  group \<open>g\<close>: the word \<^verbatim>\<open>label\<close> in any mix of cases, a non-empty separator of quotes,
  colons and white space, and a non-empty group free of quotes, closing braces and
  line feeds. The match that \<^verbatim>\<open>String.prototype.match\<close> reports is the leftmost
  occurrence, with the longest separator that leaves a group, and the longest group
  after it (\<open>isLabelMatch\<close>).
\<close>

definition occursAfter :: "jstring \<Rightarrow> jstring \<Rightarrow> jstring \<Rightarrow> bool" where
  "occursAfter r sep g =
     (\<exists>rest. r = sep @ g @ rest
        \<and> sep \<noteq> [] \<and> (\<forall>c\<in>set sep. classA c) \<and> g \<noteq> [] \<and> (\<forall>c\<in>set g. classB c))"

definition occursAt :: "jstring \<Rightarrow> jstring \<Rightarrow> jstring \<Rightarrow> bool" where
  "occursAt r sep g =
     (\<exists>w r'. r = w @ r' \<and> map lower w = lit ''label'' \<and> occursAfter r' sep g)"

definition isLabelMatch :: "jstring \<Rightarrow> jstring \<Rightarrow> bool" where
  "isLabelMatch t g =
     (\<exists>pre r sep. t = pre @ r \<and> occursAt r sep g
        \<and> (\<forall>pre' r' sep' g'. t = pre' @ r' \<and> occursAt r' sep' g' \<longrightarrow> length pre \<le> length pre')
        \<and> (\<forall>sep' g'. occursAt r sep' g' \<longrightarrow> length sep' \<le> length sep)
        \<and> (\<forall>g'. occursAt r sep g' \<longrightarrow> length g' \<le> length g))"

definition noLabelMatch :: "jstring \<Rightarrow> bool" where
  "noLabelMatch t = (\<forall>pre r sep g. t = pre @ r \<longrightarrow> \<not> occursAt r sep g)"

text \<open>\<open>isTrimOf g u\<close>: \<open>u\<close> is \<open>g\<close> without the white space at its two ends.\<close>

definition isTrimOf :: "jstring \<Rightarrow> jstring \<Rightarrow> bool" where
  "isTrimOf g u =
     (\<exists>a b. g = a @ u @ b \<and> (\<forall>c\<in>set a. isSpace c) \<and> (\<forall>c\<in>set b. isSpace c)
        \<and> (u = [] \<or> (\<not> isSpace (hd u) \<and> \<not> isSpace (last u))))"

subsection \<open>One session and the listing\<close>

text \<open>An archived variant of an identifier, and the answer for a summary.\<close>

definition isArchivedVariant :: "jstring \<Rightarrow> entry \<Rightarrow> bool" where
  "isArchivedVariant sid f = startsWith (fileName f) (sid @ lit ''.jsonl.deleted'')"

definition answer :: "failure + summary \<Rightarrow> http_error + summary" where
  "answer r = (case r of Inl e \<Rightarrow> Inl ServerError500 | Inr s \<Rightarrow> Inr s)"

text \<open>The totals after the first \<open>n\<close> message events of a log.\<close>

definition runningTotals :: "runtime \<Rightarrow> json list \<Rightarrow> nat \<Rightarrow> failure + totals" where
  "runningTotals rt lines n = accumulate rt initialTotals (take n (filter isMessage lines))"

text \<open>The summaries of the files that are recent enough and can be summarized.\<close>

definition recentSummaries :: "runtime \<Rightarrow> int \<Rightarrow> entry list \<Rightarrow> summary list" where
  "recentSummaries rt cutoff files =
     concat (map (\<lambda>f. case fileStats f of
                         None \<Rightarrow> []
                       | Some st \<Rightarrow>
                          if mtime st < cutoff then []
                          else (case parseSessionFile rt f of Inr s \<Rightarrow> [s] | Inl e \<Rightarrow> []))
                 files)"

text \<open>The candidates of a listing, and a time that a \<^verbatim>\<open>Date\<close> can hold.\<close>

definition candidates :: "query \<Rightarrow> entry list \<Rightarrow> entry list" where
  "candidates q entries = filter (\<lambda>f. isCandidate (includeArchived q) (fileName f)) entries"

definition isTime :: "int \<Rightarrow> bool" where
  "isTime t = (\<bar>t\<bar> \<le> 8640000000000000)"


section \<open>Sample logs\<close>

text \<open>A runtime for the concrete logs below. None of them adds a number to a text or
  compares a text with a number, so neither conversion is consulted.\<close>

definition plainRuntime :: runtime where
  "plainRuntime = \<lparr>numstr = (\<lambda>n. []), strpos = (\<lambda>s. False)\<rparr>"

text \<open>An object and a text written with the constants of the source, and a number as
  the log writes it.\<close>

definition obj :: "(string \<times> json) list \<Rightarrow> json" where
  "obj kv = JObj (map (\<lambda>p. (lit (fst p), snd p)) kv)"

definition str :: "string \<Rightarrow> json" where
  "str s = JStr (lit s)"

definition num :: "rat \<Rightarrow> json" where
  "num q = JNum (Fin q)"

definition logFile :: "string \<Rightarrow> int \<Rightarrow> json list \<Rightarrow> entry" where
  "logFile n t ls =
     \<lparr>fileName = lit n, fileStats = Some \<lparr>mtime = t, birthtime = t\<rparr>,
      fileLines = Some (map Some ls)\<rparr>"

definition messageEvent :: "(string \<times> json) list \<Rightarrow> json" where
  "messageEvent kv = obj [(''type'', str ''message''), (''message'', obj kv)]"

definition taggedEvent :: "string \<Rightarrow> string \<Rightarrow> (string \<times> json) list \<Rightarrow> json" where
  "taggedEvent ty tag kv =
     obj [(''type'', str ty), (''customType'', str tag), (''data'', obj kv)]"

definition tokenUsage :: "rat \<Rightarrow> json" where
  "tokenUsage n = obj [(''totalTokens'', num n)]"

definition costUsage :: "rat \<Rightarrow> json" where
  "costUsage c = obj [(''cost'', obj [(''total'', num c)])]"

text \<open>Scenario 3 of the specification: an archived log that holds 500 tokens.\<close>

definition archivedLog :: entry where
  "archivedLog =
     logFile ''abc123.jsonl.deleted.2026-02-11'' 1000
       [messageEvent [(''usage'', tokenUsage 500), (''stopReason'', str ''stop'')]]"

text \<open>Scenario 1 of the specification, with a cost, a message event whose payload is
  the empty text, and a second usage that has a token count only.\<close>

definition usageLines :: "json list" where
  "usageLines =
     [messageEvent [(''usage'', obj [(''totalTokens'', num 150),
                                     (''cost'', obj [(''total'', num 3)])]),
                    (''stopReason'', str ''toolUse'')],
      obj [(''type'', str ''message''), (''message'', JStr [])],
      messageEvent [(''usage'', tokenUsage 50)]]"

definition usageLog :: entry where
  "usageLog = logFile ''abc123.jsonl'' 1000 usageLines"

text \<open>A reply that used no tokens, and a usage with a negative count.\<close>

definition zeroUsageLines :: "json list" where
  "zeroUsageLines = [messageEvent [(''usage'', tokenUsage 0), (''stopReason'', str ''stop'')]]"

definition zeroUsageLog :: entry where
  "zeroUsageLog = logFile ''abc123.jsonl'' 1000 zeroUsageLines"

definition negativeUsageLog :: entry where
  "negativeUsageLog =
     logFile ''abc123.jsonl'' 1000 [messageEvent [(''usage'', tokenUsage (- 5))]]"

text \<open>Two replies that cost a tenth and two tenths, and two replies that used
  \<open>2 ^ 53\<close> tokens and one token.\<close>

definition tenthsLines :: "json list" where
  "tenthsLines =
     [messageEvent [(''usage'', costUsage (1 / 10))],
      messageEvent [(''usage'', costUsage (2 / 10))]]"

definition tenthsLog :: entry where
  "tenthsLog = logFile ''abc123.jsonl'' 1000 tenthsLines"

definition hugeLines :: "json list" where
  "hugeLines =
     [messageEvent [(''usage'', tokenUsage 9007199254740992)],
      messageEvent [(''usage'', tokenUsage 1)]]"

definition hugeLog :: entry where
  "hugeLog = logFile ''abc123.jsonl'' 1000 hugeLines"

text \<open>Two model snapshots around a message event that names a model; a snapshot
  without a model identifier on an event that is not \<^verbatim>\<open>custom\<close>, before one that has
  an identifier; a sub-agent session with an explicit label.\<close>

definition twoSnapshotLines :: "json list" where
  "twoSnapshotLines =
     [taggedEvent ''custom'' ''model-snapshot'' [(''modelId'', str ''model-a'')],
      messageEvent [(''model'', str ''model-x'')],
      taggedEvent ''custom'' ''model-snapshot'' [(''modelId'', str ''model-b'')]]"

definition twoSnapshotLog :: entry where
  "twoSnapshotLog = logFile ''abc123.jsonl'' 1000 twoSnapshotLines"

definition emptySnapshotLines :: "json list" where
  "emptySnapshotLines =
     [messageEvent [(''model'', str ''model-x'')],
      taggedEvent ''note'' ''model-snapshot'' [],
      taggedEvent ''custom'' ''model-snapshot'' [(''modelId'', str ''model-b'')]]"

definition emptySnapshotLog :: entry where
  "emptySnapshotLog = logFile ''abc123.jsonl'' 1000 emptySnapshotLines"

definition subagentLines :: "json list" where
  "subagentLines =
     [obj [(''type'', str ''session''), (''id'', str ''subagent:42'')],
      messageEvent [(''content'', JArr [obj [(''text'', str ''Your Task label: fix bug }'')]])],
      taggedEvent ''custom'' ''spawn'' [(''label'', str ''Refactor Task'')]]"


definition taskOnlyLog :: entry where
  "taskOnlyLog = logFile ''abc123.jsonl'' 1000 (take 2 subagentLines)"



text \<open>A second active log, a name whose metadata cannot be read, a log with a
  line that decodes to \<^verbatim>\<open>null\<close>, and a request without parameters.\<close>

definition otherLog :: entry where
  "otherLog = logFile ''def456.jsonl'' 1000 usageLines"

definition danglingEntry :: entry where
  "danglingEntry = \<lparr>fileName = lit ''0a1b2c.jsonl'', fileStats = None, fileLines = None\<rparr>"

definition nullLineLog :: entry where
  "nullLineLog = logFile ''0a1b2c.jsonl'' 1000 [JNull]"

definition noQuery :: query where
  "noQuery = \<lparr>activeMinutesParam = None, includeArchivedParam = None\<rparr>"

text \<open>A log modified later than the others, a log of two blank lines, and two logs
  modified 86 400 000 milliseconds and 86 400 001 milliseconds before the time
  100000000.\<close>

definition newerLog :: entry where
  "newerLog = logFile ''def456.jsonl'' 1500 usageLines"

definition blankLog :: entry where
  "blankLog = \<lparr>fileName = lit ''abc123.jsonl'',
                fileStats = Some \<lparr>mtime = 1000, birthtime = 900\<rparr>,
                fileLines = Some [None, None]\<rparr>"

definition recentLog :: entry where
  "recentLog = logFile ''def456.jsonl'' 13600000 usageLines"

definition staleLog :: entry where
  "staleLog = logFile ''0a1b2c.jsonl'' 13599999 usageLines"

text \<open>
  A sessions directory that holds \<open>otherLog\<close> and the archived log, seen through
  \<^verbatim>\<open>path.join\<close>: the paths \<^verbatim>\<open>def456.jsonl\<close> and \<^verbatim>\<open>./def456.jsonl\<close> are the same file.
\<close>

definition sampleDir :: "entry list" where
  "sampleDir = [otherLog, archivedLog]"

definition samplePaths :: "jstring \<Rightarrow> entry option" where
  "samplePaths p =
     (if p = lit ''def456.jsonl'' \<or> p = lit ''./def456.jsonl'' then Some otherLog
      else if p = fileName archivedLog then Some archivedLog
      else None)"


section \<open>Rounding to a double\<close>

lemma pow2_pos [simp]: "(0::rat) < 2 powi n"
  by (simp add: power_int_def)

lemma pow2_mono: "m \<le> n \<Longrightarrow> (2::rat) powi m \<le> 2 powi n"
  by (rule power_int_increasing) simp_all

lemma pow2_strict: "m < n \<Longrightarrow> (2::rat) powi m < 2 powi n"
  by (rule power_int_strict_increasing) simp_all

lemma pow2_less_D: "(2::rat) powi m < 2 powi n \<Longrightarrow> m < n"
  using pow2_mono [of n m] by (cases "m < n") simp_all

lemma pow2_le_D: "(2::rat) powi m \<le> 2 powi n \<Longrightarrow> m \<le> n"
  using pow2_strict [of n m] by (cases "m \<le> n") simp_all

lemma pow2_nat: "0 \<le> n \<Longrightarrow> (2::rat) powi n = of_int (2 ^ nat n)"
  by (simp add: power_int_def)

lemma floorLog2_bounds:
  assumes "0 < q"
  shows "2 powi (floorLog2 q) \<le> q \<and> q < 2 powi (floorLog2 q + 1)"
proof -
  obtain a b where ab: "quotient_of q = (a, b)" by (cases "quotient_of q")
  then have b: "0 < b" and q: "q = of_int a / of_int b"
    by (auto simp: quotient_of_denom_pos quotient_of_div)
  with assms have a: "0 < a" by (simp add: zero_less_divide_iff)
  define la where "la = bitlen a"
  define lb where "lb = bitlen b"
  have la1: "1 \<le> la" and lb1: "1 \<le> lb"
    using a b by (auto simp: la_def lb_def bitlen_alt_def)
  from bitlen_bounds [OF a] have "2 ^ nat (la - 1) \<le> a" "a < 2 ^ nat la"
    by (simp_all add: la_def)
  then have A: "(2::rat) powi (la - 1) \<le> of_int a" "(of_int a :: rat) < 2 powi la"
    using la1 by (simp_all only: pow2_nat of_int_le_iff of_int_less_iff) 
  from bitlen_bounds [OF b] have "2 ^ nat (lb - 1) \<le> b" "b < 2 ^ nat lb"
    by (simp_all add: lb_def)
  then have B: "(2::rat) powi (lb - 1) \<le> of_int b" "(of_int b :: rat) < 2 powi lb"
    using lb1 by (simp_all only: pow2_nat of_int_le_iff of_int_less_iff)
  have bpos: "(0::rat) < of_int b" using b by simp
  have up: "q < 2 powi (la - lb + 1)"
  proof -
    have "of_int a < (2::rat) powi la" by (rule A)
    also have "\<dots> = 2 powi (la - lb + 1) * 2 powi (lb - 1)"
      by (simp add: power_int_add [symmetric])
    also have "\<dots> \<le> 2 powi (la - lb + 1) * of_int b"
      using B(1) by (intro mult_left_mono) simp_all
    finally show ?thesis using bpos by (simp add: q pos_divide_less_eq)
  qed
  have lo: "2 powi (la - lb - 1) < q"
  proof -
    have "2 powi (la - lb - 1) * of_int b < (2::rat) powi (la - lb - 1) * 2 powi lb"
      using B(2) by (intro mult_strict_left_mono) simp_all
    also have "\<dots> = 2 powi (la - 1)"
      by (simp add: power_int_add [symmetric])
    also have "\<dots> \<le> of_int a" by (rule A)
    finally show ?thesis using bpos by (simp add: q pos_less_divide_eq)
  qed
  show ?thesis
  proof (cases "2 powi (la - lb) \<le> q")
    case True
    with up ab show ?thesis by (simp add: floorLog2_def la_def lb_def)
  next
    case False
    with lo ab show ?thesis by (simp add: floorLog2_def la_def lb_def)
  qed
qed

lemma floorLog2_unique:
  assumes "2 powi e \<le> q" and "q < 2 powi (e + 1)"
  shows "floorLog2 q = e"
proof -
  have "0 < q" using assms(1) by (rule less_le_trans [rotated]) simp
  from floorLog2_bounds [OF this]
  have f: "2 powi (floorLog2 q) \<le> q" "q < 2 powi (floorLog2 q + 1)" by simp_all
  from f(1) assms(2) have "(2::rat) powi (floorLog2 q) < 2 powi (e + 1)" by simp
  then have "floorLog2 q < e + 1" by (rule pow2_less_D)
  moreover from assms(1) f(2) have "(2::rat) powi e < 2 powi (floorLog2 q + 1)" by simp
  then have "e < floorLog2 q + 1" by (rule pow2_less_D)
  ultimately show ?thesis by simp
qed


lemma roundHalfEven_int [simp]: "roundHalfEven (of_int n) = n"
  by (simp add: roundHalfEven_def)

lemma roundHalfEven_0 [simp]: "roundHalfEven 0 = 0"
  by (simp add: roundHalfEven_def)

lemma roundHalfEven_mono:
  assumes "x \<le> y"
  shows "roundHalfEven x \<le> roundHalfEven y"
proof (cases "\<lfloor>x\<rfloor> = \<lfloor>y\<rfloor>")
  case True
  with assms show ?thesis
    by (auto simp: roundHalfEven_def Let_def)
next
  case False
  with assms have "\<lfloor>x\<rfloor> + 1 \<le> \<lfloor>y\<rfloor>"
    using floor_mono [OF assms] by linarith
  moreover have "roundHalfEven x \<le> \<lfloor>x\<rfloor> + 1"
    by (simp add: roundHalfEven_def Let_def)
  moreover have "\<lfloor>y\<rfloor> \<le> roundHalfEven y"
    by (simp add: roundHalfEven_def Let_def)
  ultimately show ?thesis by linarith
qed

lemma roundHalfEven_le: "x \<le> of_int n \<Longrightarrow> roundHalfEven x \<le> n"
  using roundHalfEven_mono [of x "of_int n"] by simp

lemma roundHalfEven_ge: "of_int n \<le> x \<Longrightarrow> n \<le> roundHalfEven x"
  using roundHalfEven_mono [of "of_int n" x] by simp

lemma ulp_expo: "ulp q = 2 powi (expo q - 52)"
  by (simp add: ulp_def)

lemma ulp_pos [simp]: "0 < ulp q"
  by (simp add: ulp_def)

lemma expo_ge: "- 1022 \<le> expo q"
  by (simp add: expo_def)

lemma abs_less_expo: "\<bar>q\<bar> < 2 powi (expo q + 1)"
proof (cases "q = 0")
  case True
  then show ?thesis by simp
next
  case False
  then have "0 < \<bar>q\<bar>" by simp
  from floorLog2_bounds [OF this] have "\<bar>q\<bar> < 2 powi (floorLog2 \<bar>q\<bar> + 1)" by simp
  also have "\<dots> \<le> 2 powi (expo q + 1)"
    using False by (intro pow2_mono) (simp add: expo_def)
  finally show ?thesis .
qed

lemma expo_le_abs: "- 1022 < expo q \<Longrightarrow> 2 powi (expo q) \<le> \<bar>q\<bar>"
proof -
  assume a: "- 1022 < expo q"
  have nz: "q \<noteq> 0" using a by (auto simp: expo_def)
  with a have e: "expo q = floorLog2 \<bar>q\<bar>"
    by (simp add: expo_def max_def split: if_splits)
  from nz have "0 < \<bar>q\<bar>" by simp
  from floorLog2_bounds [OF this] e show ?thesis by simp
qed

lemma pow53_ulp: "2 powi (expo q + 1) = 2 ^ 53 * ulp q"
  using power_int_add [of "2::rat" 53 "expo q - 52"] by (simp add: ulp_expo algebra_simps)

lemma pow52_ulp: "2 powi (expo q) = 2 ^ 52 * ulp q"
  using power_int_add [of "2::rat" 52 "expo q - 52"] by (simp add: ulp_expo)

lemma quotient_bounds: "q / ulp q < 2 ^ 53" "- (2 ^ 53) < q / ulp q"
proof -
  have "\<bar>q\<bar> < 2 ^ 53 * ulp q"
    using abs_less_expo [of q] by (simp add: pow53_ulp)
  then have "q < 2 ^ 53 * ulp q" and "- (2 ^ 53 * ulp q) < q"
    by (simp_all add: abs_less_iff)
  then show "q / ulp q < 2 ^ 53" "- (2 ^ 53) < q / ulp q"
    by (simp_all add: pos_divide_less_eq pos_less_divide_eq)
qed

lemma roundHalfEven_quotient: "\<bar>roundHalfEven (q / ulp q)\<bar> \<le> 2 ^ 53"
proof -
  from quotient_bounds [of q]
  have "q / ulp q \<le> of_int (2 ^ 53)" and "of_int (- (2 ^ 53)) \<le> q / ulp q"
    by simp_all
  then have "roundHalfEven (q / ulp q) \<le> 2 ^ 53" and "- (2 ^ 53) \<le> roundHalfEven (q / ulp q)"
    by (auto intro: roundHalfEven_le roundHalfEven_ge)
  then show ?thesis by (simp add: abs_le_iff)
qed

text \<open>A double is rounded to itself.\<close>

lemma roundFin_double:
  assumes "isDouble q"
  shows "roundFin q = q"
proof (cases "q = 0")
  case True
  then show ?thesis by (simp add: roundFin_def)
next
  case False
  from assms obtain n j where q: "q = of_int n * 2 powi j" and n: "\<bar>n\<bar> \<le> 2 ^ 53"
    and j: "- 1074 \<le> j" by (auto simp: isDouble_def)
  define e where "e = expo q"
  define u where "u = ulp q"
  have u: "u = 2 powi (e - 52)" by (simp add: u_def e_def ulp_expo)
  have upos: "0 < u" by (simp add: u)
  have "\<exists>m. q = of_int m * u"
  proof (cases "e - 52 \<le> j")
    case True
    then have "(2::rat) powi j = 2 powi (j - (e - 52)) * u"
      unfolding u by (simp add: power_int_add [symmetric])
    moreover from True have "(2::rat) powi (j - (e - 52)) = of_int (2 ^ nat (j - (e - 52)))"
      by (intro pow2_nat) simp
    ultimately have "q = of_int (n * 2 ^ nat (j - (e - 52))) * u"
      unfolding q by (simp only: of_int_mult mult.assoc)
    then show ?thesis ..
  next
    case c: False
    with j have big: "- 1022 < expo q" by (simp add: e_def)
    have p53: "(2::rat) powi (j + 53) = 2 ^ 53 * 2 powi j"
      using power_int_add [of "2::rat" 53 j] by (simp add: add.commute)
    have an: "\<bar>q\<bar> = of_int \<bar>n\<bar> * 2 powi j"
      unfolding q by (simp add: abs_mult)
    from expo_le_abs [OF big] have "2 powi e \<le> of_int \<bar>n\<bar> * (2::rat) powi j"
      by (simp add: an e_def)
    moreover from c have "(2::rat) powi (j + 53) \<le> 2 powi e"
      by (intro pow2_mono) simp
    ultimately have "2 ^ 53 * 2 powi j \<le> (of_int \<bar>n\<bar> :: rat) * 2 powi j"
      by (simp only: p53 [symmetric])
    then have "(2 ^ 53 :: rat) \<le> of_int \<bar>n\<bar>" by simp
    then have "(of_int (2 ^ 53) :: rat) \<le> of_int \<bar>n\<bar>" by simp
    then have "2 ^ 53 \<le> \<bar>n\<bar>" by (simp only: of_int_le_iff)
    with n have n53: "\<bar>n\<bar> = 2 ^ 53" by simp
    have "\<bar>q\<bar> = 2 powi (j + 53)"
      unfolding an n53 p53 by simp
    with expo_le_abs [OF big] have "(2::rat) powi e \<le> 2 powi (j + 53)"
      by (simp add: e_def)
    then have "e \<le> j + 53" by (rule pow2_le_D)
    with c have e: "e - 52 = j + 1" by linarith
    have u2: "u = 2 powi j * 2"
      using power_int_add [of "2::rat" j 1] by (simp add: u e)
    have "even \<bar>n\<bar>" unfolding n53 by simp
    then have "even n" by simp
    then obtain k where "n = 2 * k" by (auto elim: evenE)
    then have "q = of_int k * u"
      unfolding q u2 by simp
    then show ?thesis ..
  qed
  then obtain m where m: "q = of_int m * u" ..
  with upos have "q / u = of_int m" by simp
  with m show ?thesis by (simp add: roundFin_def u_def)
qed

lemma toDouble_double:
  assumes "isDouble q"
  shows "toDouble q = Fin q"
proof -
  have r: "roundFin q = q" using assms by (rule roundFin_double)
  from assms have "\<not> overflowBound \<le> \<bar>q\<bar>" by (auto simp only: isDouble_def not_le)
  then show ?thesis
    unfolding toDouble_def Let_def r by (simp only: if_False)
qed


lemma roundFin_isDouble:
  assumes "\<bar>roundFin q\<bar> < overflowBound"
  shows "isDouble (roundFin q)"
  unfolding isDouble_def
proof (intro exI conjI)
  show "roundFin q = of_int (roundHalfEven (q / ulp q)) * 2 powi (expo q - 52)"
    by (simp add: roundFin_def ulp_expo)
  show "\<bar>roundHalfEven (q / ulp q)\<bar> \<le> 2 ^ 53" by (rule roundHalfEven_quotient)
  show "- 1074 \<le> expo q - 52" using expo_ge [of q] by simp
  show "\<bar>roundFin q\<bar> < overflowBound" by (rule assms)
qed

lemma toDouble_Fin_isDouble:
  assumes "toDouble q = Fin r"
  shows "isDouble r"
proof -
  from assms have "r = roundFin q" and "\<not> overflowBound \<le> \<bar>roundFin q\<bar>"
    by (auto simp only: toDouble_def Let_def split: if_splits)
  then show ?thesis by (simp only: roundFin_isDouble not_le)
qed

lemma roundFin_nonneg:
  assumes "0 \<le> q"
  shows "0 \<le> roundFin q"
proof -
  from assms ulp_pos [of q] have "of_int 0 \<le> q / ulp q"
    by (simp add: zero_le_divide_iff less_imp_le)
  then have "0 \<le> roundHalfEven (q / ulp q)" by (rule roundHalfEven_ge)
  with ulp_pos [of q] show ?thesis
    by (simp add: roundFin_def zero_le_mult_iff less_imp_le)
qed

lemma floorLog2_mono:
  assumes "0 < x" and "x \<le> y"
  shows "floorLog2 x \<le> floorLog2 y"
proof -
  from assms have "0 < y" by simp
  from floorLog2_bounds [OF assms(1)] floorLog2_bounds [OF this] assms(2)
  have "(2::rat) powi (floorLog2 x) < 2 powi (floorLog2 y + 1)" by simp
  then have "floorLog2 x < floorLog2 y + 1" by (rule pow2_less_D)
  then show ?thesis by simp
qed

lemma expo_mono:
  assumes "0 \<le> x" and "x \<le> y"
  shows "expo x \<le> expo y"
proof (cases "x = 0")
  case True
  then show ?thesis by (simp add: expo_def)
next
  case False
  with assms have "0 < x" and "0 < y" by simp_all
  with assms floorLog2_mono [of x y] show ?thesis
    by (simp add: expo_def)
qed

lemma roundFin_mono:
  assumes "0 \<le> x" and "x \<le> y"
  shows "roundFin x \<le> roundFin y"
proof (cases "expo x = expo y")
  case True
  then have u: "ulp x = ulp y" by (simp add: ulp_def)
  from assms(2) ulp_pos [of y] have "x / ulp y \<le> y / ulp y"
    by (intro divide_right_mono) (simp_all add: less_imp_le)
  then have "roundHalfEven (x / ulp y) \<le> roundHalfEven (y / ulp y)"
    by (rule roundHalfEven_mono)
  then show ?thesis by (simp add: roundFin_def u)
next
  case False
  with expo_mono [OF assms] have lt: "expo x + 1 \<le> expo y" by simp
  from quotient_bounds(1) [of x] have "x / ulp x \<le> of_int (2 ^ 53)" by simp
  then have "roundHalfEven (x / ulp x) \<le> 2 ^ 53" by (rule roundHalfEven_le)
  then have "(of_int (roundHalfEven (x / ulp x)) :: rat) \<le> of_int (2 ^ 53)"
    by (simp only: of_int_le_iff)
  then have "roundFin x \<le> 2 ^ 53 * ulp x"
    by (simp add: roundFin_def)
  also have "\<dots> = 2 powi (expo x + 1)" by (simp only: pow53_ulp)
  also have "\<dots> \<le> 2 powi (expo y)" using lt by (rule pow2_mono)
  also have "\<dots> = 2 ^ 52 * ulp y" by (simp only: pow52_ulp)
  also have "\<dots> \<le> roundFin y"
  proof -
    from lt expo_ge [of x] have "- 1022 < expo y" by simp
    from expo_le_abs [OF this] assms have "2 powi (expo y) \<le> y" by simp
    then have "2 ^ 52 * ulp y \<le> y" by (simp only: pow52_ulp)
    then have "of_int (2 ^ 52) \<le> y / ulp y" by (simp add: pos_le_divide_eq)
    then have "2 ^ 52 \<le> roundHalfEven (y / ulp y)" by (rule roundHalfEven_ge)
    then have "(of_int (2 ^ 52) :: rat) \<le> of_int (roundHalfEven (y / ulp y))"
      by (simp only: of_int_le_iff)
    then show ?thesis by (simp add: roundFin_def)
  qed
  finally show ?thesis .
qed

lemma overflowBound_pos [simp]: "0 < overflowBound"
  by (simp add: overflowBound_def)

lemma toDouble_of_nonneg:
  assumes "0 \<le> q"
  shows "toDouble q = (if overflowBound \<le> roundFin q then PosInf else Fin (roundFin q))"
proof -
  have r: "\<bar>roundFin q\<bar> = roundFin q"
    using roundFin_nonneg [OF assms] by simp
  show ?thesis
  proof (cases "q = 0")
    case True
    then show ?thesis by (simp add: toDouble_def roundFin_def not_le)
  next
    case False
    with assms have "0 < q" by simp
    then show ?thesis by (simp add: toDouble_def r)
  qed
qed

lemma toDouble_nonneg:
  assumes "0 \<le> q"
  shows "le (Fin 0) (toDouble q)"
  using roundFin_nonneg [OF assms]
  by (simp add: toDouble_of_nonneg [OF assms])

lemma toDouble_mono:
  assumes "0 \<le> x" and "x \<le> y"
  shows "le (toDouble x) (toDouble y)"
proof -
  have m: "roundFin x \<le> roundFin y" using assms by (rule roundFin_mono)
  from assms have y: "0 \<le> y" by simp
  from m show ?thesis
    by (simp add: toDouble_of_nonneg [OF assms(1)] toDouble_of_nonneg [OF y])
qed

lemma numAdd_grows:
  assumes "isDouble a" and "0 \<le> a" and "0 \<le> b"
  shows "le (Fin a) (numAdd (Fin a) (Fin b))" and "le (Fin 0) (numAdd (Fin a) (Fin b))"
proof -
  from assms(2,3) have "a \<le> a + b" by simp
  from toDouble_mono [OF assms(2) this] toDouble_double [OF assms(1)]
  show "le (Fin a) (numAdd (Fin a) (Fin b))" by simp
  from assms(2,3) have "0 \<le> a + b" by simp
  from toDouble_nonneg [OF this] show "le (Fin 0) (numAdd (Fin a) (Fin b))" by simp
qed


section \<open>Numbers and texts of the examples\<close>

lemma isDouble_int: "\<bar>n\<bar> \<le> 2 ^ 53 \<Longrightarrow> isDouble (of_int n)"
proof -
  assume a: "\<bar>n\<bar> \<le> 2 ^ 53"
  then have "\<bar>(of_int n :: rat)\<bar> \<le> 2 ^ 53"
    by (metis of_int_abs of_int_le_iff of_int_numeral of_int_power)
  also have "(2::rat) ^ 53 = 2 powi 53" by simp
  also have "\<dots> < 2 powi 1024" by (rule pow2_strict) simp
  finally have "\<bar>(of_int n :: rat)\<bar> < overflowBound" by (simp only: overflowBound_def)
  with a show ?thesis
    unfolding isDouble_def by (intro exI [of _ n] exI [of _ 0]) simp
qed

lemma toDouble_int: "\<bar>n\<bar> \<le> 2 ^ 53 \<Longrightarrow> toDouble (of_int n) = Fin (of_int n)"
  by (rule toDouble_double) (rule isDouble_int)

lemma toDouble_numeral [simp]:
  "(numeral k :: int) \<le> 2 ^ 53 \<Longrightarrow> toDouble (numeral k) = Fin (numeral k)"
  using toDouble_int [of "numeral k"] by simp

lemma toDouble_neg_numeral [simp]:
  "(numeral k :: int) \<le> 2 ^ 53 \<Longrightarrow> toDouble (- numeral k) = Fin (- numeral k)"
  using toDouble_int [of "- numeral k"] by simp

lemma toDouble_0 [simp]: "toDouble 0 = Fin 0"
  using toDouble_int [of 0] by simp

lemma toDouble_1 [simp]: "toDouble 1 = Fin 1"
  using toDouble_int [of 1] by simp

lemma lit_eq_iff [simp]: "(lit a = lit b) = (a = b)"
  unfolding lit_def by (simp add: inj_map_eq_map inj_of_char)

lemma lit_Nil_iff [simp]: "(lit s = []) = (s = [])" "([] = lit s) = (s = [])"
  by (auto simp: lit_def)


section \<open>Lines that are not null\<close>

lemma propOf_nonnull: "l \<noteq> JNull \<Longrightarrow> propOf l k = Inr (get l k)"
  by (cases l) simp_all

lemma isMessageLine_pure: "l \<noteq> JNull \<Longrightarrow> isMessageLine l = Inr (isMessage l)"
  by (simp add: isMessageLine_def isMessage_def propOf_nonnull)

lemma isSessionLine_pure: "l \<noteq> JNull \<Longrightarrow> isSessionLine l = Inr (isSession l)"
  by (simp add: isSessionLine_def isSession_def propOf_nonnull)


lemma isModelLine_pure: "l \<noteq> JNull \<Longrightarrow> isModelLine l = Inr (isModelSnapshot l)"
  by (simp add: isModelLine_def isModelSnapshot_def propOf_nonnull)

lemma isMessage_nonnull: "isMessage l \<Longrightarrow> l \<noteq> JNull"
  by (auto simp: isMessage_def)

lemma findE_pure: "\<forall>x\<in>set xs. p x = Inr (q x) \<Longrightarrow> findE p xs = Inr (find q xs)"
  by (induction xs) simp_all

lemma filterE_pure: "\<forall>x\<in>set xs. p x = Inr (q x) \<Longrightarrow> filterE p xs = Inr (filter q xs)"
  by (induction xs) simp_all


lemma filterE_message_nonnull: "filterE isMessageLine xs = Inr ys \<Longrightarrow> JNull \<notin> set xs"
proof (induction xs arbitrary: ys)
  case Nil
  then show ?case by simp
next
  case (Cons x xs)
  then show ?case
    by (auto simp: isMessageLine_def split: sum.splits)
qed

lemma filterE_message:
  assumes "filterE isMessageLine xs = Inr ys"
  shows "ys = filter isMessage xs"
proof -
  have "\<forall>x\<in>set xs. isMessageLine x = Inr (isMessage x)"
    using filterE_message_nonnull [OF assms] by (metis isMessageLine_pure)
  then have "filterE isMessageLine xs = Inr (filter isMessage xs)"
    by (rule filterE_pure)
  with assms show ?thesis by simp
qed

lemma decoded_map_Some: "decoded (map Some ls) = map parsed ls"
  by (induction ls) simp_all

section \<open>What a successful parse says\<close>

lemma parseLines_InrD:
  assumes "parseLines rt fn st lines = Inr s"
  shows "JNull \<notin> set lines"
    and "\<exists>a. accumulate rt initialTotals (filter isMessage lines) = Inr a
            \<and> totalTokens s = accTokens a \<and> totalCost s = accCost a
            \<and> status s = resolveStatus rt (includes_str fn (lit ''.deleted'')) (accTokens a) (lastStatus a)
            \<and> overrideModel lines (accModel a) = Inr (model s)"
    and "resolveSessionKey rt (find isSession lines) (extractSessionId fn) = Inr (sessionKey s)"
    and "resolveLabel lines (sessionKey s) = Inr (label s)"
proof -
  from assms obtain ms where ms: "filterE isMessageLine lines = Inr ms"
    by (auto simp: parseLines_def Let_def split: sum.splits)
  from filterE_message_nonnull [OF ms] show nn: "JNull \<notin> set lines" .
  have msf: "ms = filter isMessage lines" by (rule filterE_message [OF ms])
  have "\<forall>x\<in>set lines. isSessionLine x = Inr (isSession x)"
    using nn by (metis isSessionLine_pure)
  then have fs: "findE isSessionLine lines = Inr (find isSession lines)"
    by (rule findE_pure)
  from assms ms fs msf
  show "\<exists>a. accumulate rt initialTotals (filter isMessage lines) = Inr a
            \<and> totalTokens s = accTokens a \<and> totalCost s = accCost a
            \<and> status s = resolveStatus rt (includes_str fn (lit ''.deleted'')) (accTokens a) (lastStatus a)
            \<and> overrideModel lines (accModel a) = Inr (model s)"
    by (auto simp: parseLines_def Let_def split: sum.splits)
  from assms ms fs msf
  show "resolveSessionKey rt (find isSession lines) (extractSessionId fn) = Inr (sessionKey s)"
    by (auto simp: parseLines_def Let_def split: sum.splits)
  from assms ms fs msf
  show "resolveLabel lines (sessionKey s) = Inr (label s)"
    by (auto simp: parseLines_def Let_def split: sum.splits)
qed

lemma parseSessionFile_InrD:
  assumes "parseSessionFile rt f = Inr s"
  shows "\<exists>st ls. fileStats f = Some st \<and> fileLines f = Some ls
           \<and> parseLines rt (fileName f) st (decoded ls) = Inr s"
  using assms by (auto simp: parseSessionFile_def split: option.splits)

section \<open>The accumulation pass\<close>

lemma step_InrD:
  assumes "step rt a l = Inr a'"
  shows "lastStatus a' = (if truthy (stopReasonOf l) then stopStatus l else lastStatus a)"
    and "accModel a' = (if truthy (modelOf l) then modelOf l else accModel a)"
proof -
  from assms have nn: "l \<noteq> JNull"
    by (cases l) (simp_all add: step_def)
  from assms nn show "lastStatus a' = (if truthy (stopReasonOf l) then stopStatus l else lastStatus a)"
    by (auto simp: step_def propOf_nonnull stopReasonOf_def stopStatus_def
             split: sum.splits if_splits prod.splits)
  from assms nn show "accModel a' = (if truthy (modelOf l) then modelOf l else accModel a)"
    by (auto simp: step_def propOf_nonnull modelOf_def
             split: sum.splits if_splits prod.splits)
qed

lemma accumulate_lastStatus:
  "accumulate rt a ms = Inr a' \<Longrightarrow>
   lastStatus a' = (case filter (\<lambda>l. truthy (stopReasonOf l)) ms of
                      [] \<Rightarrow> lastStatus a
                    | x # xs \<Rightarrow> stopStatus (last (x # xs)))"
proof (induction ms arbitrary: a)
  case Nil
  then show ?case by simp
next
  case (Cons m ms)
  from Cons.prems obtain b where b: "step rt a m = Inr b" and r: "accumulate rt b ms = Inr a'"
    by (auto split: sum.splits)
  from Cons.IH [OF r] step_InrD(1) [OF b] show ?case
    by (auto split: list.splits)
qed

lemma accumulate_model:
  "accumulate rt a ms = Inr a' \<Longrightarrow>
   accModel a' = (case filter (\<lambda>l. truthy (modelOf l)) ms of
                    [] \<Rightarrow> accModel a
                  | x # xs \<Rightarrow> modelOf (last (x # xs)))"
proof (induction ms arbitrary: a)
  case Nil
  then show ?case by simp
next
  case (Cons m ms)
  from Cons.prems obtain b where b: "step rt a m = Inr b" and r: "accumulate rt b ms = Inr a'"
    by (auto split: sum.splits)
  from Cons.IH [OF r] step_InrD(2) [OF b] show ?case
    by (auto split: list.splits)
qed

lemma lastStopStatus_values:
  "lastStopStatus lines = ''idle'' \<or> lastStopStatus lines = ''running''
     \<or> lastStopStatus lines = ''completed''"
  by (simp add: lastStopStatus_def stopStatus_def split: list.splits)

lemma parse_status:
  assumes "parseSessionFile rt f = Inr s" and "fileLines f = Some ls"
  shows "status s = resolveStatus rt (includes_str (fileName f) (lit ''.deleted'')) (totalTokens s)
           (lastStopStatus (decoded ls))"
proof -
  from parseSessionFile_InrD [OF assms(1)] assms(2) obtain st
    where p: "parseLines rt (fileName f) st (decoded ls) = Inr s" by auto
  from parseLines_InrD(2) [OF p] obtain a
    where a: "accumulate rt initialTotals (filter isMessage (decoded ls)) = Inr a"
      and t: "totalTokens s = accTokens a"
      and s: "status s = resolveStatus rt (includes_str (fileName f) (lit ''.deleted'')) (accTokens a) (lastStatus a)"
    by auto
  have "lastStatus a = lastStopStatus (decoded ls)"
    using accumulate_lastStatus [OF a]
    by (simp add: lastStopStatus_def initialTotals_def split: list.splits)
  with s t show ?thesis by simp
qed

section \<open>The status\<close>

text \<open>
  C4. Whenever a log is summarized, the status of the summary is \<^verbatim>\<open>archived\<close>
  exactly when the name of the log contains the marker \<^verbatim>\<open>.deleted\<close>, whatever the
  log holds: the message events can only leave \<^verbatim>\<open>idle\<close>, \<^verbatim>\<open>running\<close> or
  \<^verbatim>\<open>completed\<close> behind.
\<close>

theorem archived_iff_flagged:
  "parseSessionFile rt f = Inr s \<Longrightarrow>
   (status s = ''archived'') = includes_str (fileName f) (lit ''.deleted'')"
proof -
  assume p: "parseSessionFile rt f = Inr s"
  from parseSessionFile_InrD [OF p] obtain ls where ls: "fileLines f = Some ls" by auto
  from parse_status [OF p ls] lastStopStatus_values [of "decoded ls"]
  show ?thesis
    by (auto simp: resolveStatus_def Let_def)
qed

lemmas model_defs = parseSessionFile_def parseLines_def isSessionLine_def isMessageLine_def
  isSpawnLine_def isModelLine_def isTaskLine_def taskText_def step_def initialTotals_def
  resolveSessionKey_def resolveLabel_def overrideModel_def resolveStatus_def
  extractSessionId_def isHexDash_def js_add_def js_or_def Let_def

lemmas sample_defs = plainRuntime_def logFile_def messageEvent_def taggedEvent_def
  tokenUsage_def costUsage_def obj_def str_def num_def lit_def decoded_map_Some

theorem archived_iff_flagged_witness:
  "map_sum id status (parseSessionFile plainRuntime archivedLog) = Inr ''archived''"
proof -
  obtain s where p: "parseSessionFile plainRuntime archivedLog = Inr s"
    by (simp add: archivedLog_def model_defs sample_defs)
  have "includes_str (fileName archivedLog) (lit ''.deleted'')"
    by (simp add: archivedLog_def logFile_def lit_def)
  with archived_iff_flagged [OF p] have "status s = ''archived''" by simp
  with p show ?thesis by simp
qed


section \<open>Token and cost totals\<close>

lemma falsy_get: "\<not> truthy u \<Longrightarrow> get u k = JNull"
  by (cases u) simp_all

lemma numberOrAbsent_cases:
  "numberOrAbsent v \<Longrightarrow> v = JNull \<or> (\<exists>n. v = JNum n \<and> n \<noteq> NaN)"
  by (cases v) simp_all

lemma js_add_numbers: "js_add rt (JNum a) (JNum b) = Inr (JNum (numAdd a b))"
  by (simp add: js_add_def)

lemma isJsNumber_toDouble [simp]: "isJsNumber (toDouble q)"
  by (cases "toDouble q") (simp_all add: toDouble_Fin_isDouble)

lemma isJsNumber_numAdd [simp]: "isJsNumber (numAdd x y)"
  by (cases x; cases y) simp_all

lemma numAdd_zero_right [simp]: "isJsNumber x \<Longrightarrow> numAdd x (Fin 0) = x"
  by (cases x) (simp_all add: toDouble_double)

lemma numAdd_zero_left [simp]: "isJsNumber x \<Longrightarrow> numAdd (Fin 0) x = x"
  by (cases x) (simp_all add: toDouble_double)

lemma isDouble_0 [simp]: "isDouble 0"
  using isDouble_int [of 0] by simp

lemma isDouble_iff: "isDouble q = (toDouble q = Fin q)"
  using toDouble_double [of q] toDouble_Fin_isDouble [of q q] by blast

lemma isDouble_numeral [simp]: "(numeral k :: int) \<le> 2 ^ 53 \<Longrightarrow> isDouble (numeral k)"
  using isDouble_int [of "numeral k"] by simp

text \<open>One message line: the token total takes the line's count, or zero; the cost
  total takes the line's cost, or stays.\<close>

lemma step_numeric:
  assumes nn: "l \<noteq> JNull" and v: "validUsage l"
    and t: "accTokens a = JNum t" and c: "accCost a = JNum c"
    and jt: "isJsNumber t" and jc: "isJsNumber c"
  shows "\<exists>a'. step rt a l = Inr a' \<and> accTokens a' = JNum (numAdd t (tokensOf l))
           \<and> accCost a' = JNum (numAdd c (costOf l))"
proof (cases "truthy (usageOf l)")
  case False
  then have "get (usageOf l) (lit ''totalTokens'') = JNull"
    and "get (usageOf l) (lit ''cost'') = JNull"
    by (simp_all add: falsy_get)
  then have "tokensOf l = Fin 0" and "costOf l = Fin 0"
    by (simp_all add: tokensOf_def costOf_def)
  with False nn t c jt jc show ?thesis
    by (simp add: step_def propOf_nonnull usageOf_def)
next
  case True
  from v have "numberOrAbsent (get (usageOf l) (lit ''totalTokens''))"
    and "numberOrAbsent (get (get (usageOf l) (lit ''cost'')) (lit ''total''))"
    by (simp_all add: validUsage_def)
  then have tk: "js_or (get (usageOf l) (lit ''totalTokens'')) (JNum (Fin 0)) = JNum (tokensOf l)"
    and ck: "\<not> truthy (get (get (usageOf l) (lit ''cost'')) (lit ''total'')) \<and> costOf l = Fin 0
          \<or> truthy (get (get (usageOf l) (lit ''cost'')) (lit ''total''))
            \<and> get (get (usageOf l) (lit ''cost'')) (lit ''total'') = JNum (costOf l)"
    by (auto simp: js_or_def tokensOf_def costOf_def dest!: numberOrAbsent_cases)
  from ck show ?thesis
  proof
    assume "\<not> truthy (get (get (usageOf l) (lit ''cost'')) (lit ''total'')) \<and> costOf l = Fin 0"
    with True nn t c tk jc show ?thesis
      by (simp add: step_def propOf_nonnull usageOf_def js_add_numbers)
  next
    assume "truthy (get (get (usageOf l) (lit ''cost'')) (lit ''total''))
            \<and> get (get (usageOf l) (lit ''cost'')) (lit ''total'') = JNum (costOf l)"
    then have h: "truthy (get (get (usageOf l) (lit ''cost'')) (lit ''total''))"
      and g: "get (get (usageOf l) (lit ''cost'')) (lit ''total'') = JNum (costOf l)"
      by blast+
    from True nn t c tk h show ?thesis
      by (simp add: step_def propOf_nonnull usageOf_def js_add_numbers g [unfolded usageOf_def])
  qed
qed

lemma accumulate_numeric:
  assumes "\<forall>l\<in>set ms. l \<noteq> JNull \<and> validUsage l"
    and "accTokens a = JNum t" and "accCost a = JNum c"
    and "isJsNumber t" and "isJsNumber c"
  shows "\<exists>a'. accumulate rt a ms = Inr a'
           \<and> accTokens a' = JNum (foldl numAdd t (map tokensOf ms))
           \<and> accCost a' = JNum (foldl numAdd c (map costOf ms))"
  using assms
proof (induction ms arbitrary: a t c)
  case Nil
  then show ?case by simp
next
  case (Cons m ms)
  from Cons.prems have "m \<noteq> JNull" and "validUsage m" by simp_all
  from step_numeric [OF this Cons.prems(2,3,4,5)] obtain b
    where b: "step rt a m = Inr b" and bt: "accTokens b = JNum (numAdd t (tokensOf m))"
      and bc: "accCost b = JNum (numAdd c (costOf m))" by blast
  from Cons.prems(1) have "\<forall>l\<in>set ms. l \<noteq> JNull \<and> validUsage l" by simp
  from Cons.IH [OF this bt bc] b show ?case
    by simp
qed

lemma isMessage_payload: "isMessage l \<Longrightarrow> hasMessagePayload l"
  by (auto simp: isMessage_def hasMessagePayload_def)

lemma payload_not_message:
  "hasMessagePayload l \<Longrightarrow> \<not> isMessage l \<Longrightarrow> tokensOf l = Fin 0 \<and> costOf l = Fin 0"
  by (simp add: isMessage_def hasMessagePayload_def tokensOf_def costOf_def usageOf_def
        falsy_get)

lemma foldl_numAdd_payload:
  "isJsNumber x \<Longrightarrow>
   foldl numAdd x (map tokensOf (filter hasMessagePayload xs))
     = foldl numAdd x (map tokensOf (filter isMessage xs))"
  "isJsNumber y \<Longrightarrow>
   foldl numAdd y (map costOf (filter hasMessagePayload xs))
     = foldl numAdd y (map costOf (filter isMessage xs))"
  by (induction xs arbitrary: x y) (auto simp: isMessage_payload payload_not_message)

lemma payload_sums:
  "floatSum (map tokensOf (filter hasMessagePayload xs)) = floatSum (map tokensOf (filter isMessage xs))"
  "floatSum (map costOf (filter hasMessagePayload xs)) = floatSum (map costOf (filter isMessage xs))"
  by (simp_all add: floatSum_def foldl_numAdd_payload)

lemma parse_totals:
  assumes "parseSessionFile rt f = Inr s" and "fileLines f = Some ls"
  shows "runningTotals rt (decoded ls) (length (filter isMessage (decoded ls))) =
           Inr \<lparr>accTokens = totalTokens s, accCost = totalCost s,
                accModel = messageModel (decoded ls), lastStatus = lastStopStatus (decoded ls)\<rparr>"
proof -
  from parseSessionFile_InrD [OF assms(1)] assms(2) obtain st
    where p: "parseLines rt (fileName f) st (decoded ls) = Inr s" by auto
  from parseLines_InrD(2) [OF p] obtain a
    where a: "accumulate rt initialTotals (filter isMessage (decoded ls)) = Inr a"
      and t: "totalTokens s = accTokens a" "totalCost s = accCost a"
    by auto
  have "lastStatus a = lastStopStatus (decoded ls)"
    using accumulate_lastStatus [OF a]
    by (simp add: lastStopStatus_def initialTotals_def split: list.splits)
  moreover have "accModel a = messageModel (decoded ls)"
    using accumulate_model [OF a]
    by (simp add: messageModel_def initialTotals_def split: list.splits)
  ultimately show ?thesis using a t
    by (simp add: runningTotals_def)
qed

lemma running_numeric:
  assumes "\<forall>l\<in>set (filter isMessage lines). validUsage l"
  shows "\<exists>a. runningTotals rt lines n = Inr a
           \<and> accTokens a = JNum (floatSum (map tokensOf (take n (filter isMessage lines))))
           \<and> accCost a = JNum (floatSum (map costOf (take n (filter isMessage lines))))"
proof -
  have "\<forall>l\<in>set (take n (filter isMessage lines)). l \<noteq> JNull \<and> validUsage l"
    using assms by (auto dest!: in_set_takeD dest: isMessage_nonnull)
  from accumulate_numeric [OF this, of initialTotals "Fin 0" "Fin 0" rt] show ?thesis
    by (simp add: runningTotals_def initialTotals_def floatSum_def)
qed

text \<open>When every partial sum is a double, no addition rounds.\<close>

lemma foldl_numAdd_exact:
  "exactFrom a xs \<Longrightarrow> foldl numAdd (Fin a) xs = Fin (a + sum_list (map valueOf xs))"
proof (induction xs arbitrary: a)
  case Nil
  then show ?case by simp
next
  case (Cons x xs)
  from Cons.prems obtain q where x: "x = Fin q" by (cases x) simp_all
  from Cons.prems x have d: "isDouble (a + q)" and r: "exactFrom (a + q) xs" by simp_all
  from Cons.IH [OF r] toDouble_double [OF d] x show ?case
    by (simp add: add.assoc)
qed

lemma floatSum_exact: "exactSums xs \<Longrightarrow> floatSum xs = Fin (sum_list (map valueOf xs))"
  using foldl_numAdd_exact [of 0 xs] by (simp add: floatSum_def exactSums_def)


text \<open>
  C3, as amended. The claim reads the totals as the sums of the values. The source
  adds doubles, and every addition rounds: whenever a log is summarized and every
  token count and cost total that its message events carry is a number or is absent,
  \<open>totalTokens\<close> is the sum of \<^verbatim>\<open>usage.totalTokens\<close> over the message events that
  have a payload, taken in the order of the log and rounded to a double after every
  addition, and \<open>totalCost\<close> is the like sum of \<^verbatim>\<open>usage.cost.total\<close>. An absent field
  counts as zero, each of the two on its own, so a usage with one of them contributes
  only that one. The total is the exact sum of the values when every partial sum is
  a double.
\<close>

theorem totals_are_sums:
  assumes "parseSessionFile rt f = Inr s" and "fileLines f = Some ls"
    and "\<forall>l\<in>set (filter isMessage (decoded ls)). validUsage l"
  shows "totalTokens s = JNum (floatSum (map tokensOf (filter hasMessagePayload (decoded ls))))
       \<and> totalCost s = JNum (floatSum (map costOf (filter hasMessagePayload (decoded ls))))
       \<and> (exactSums (map tokensOf (filter hasMessagePayload (decoded ls))) \<longrightarrow>
            totalTokens s
              = JNum (Fin (sum_list (map valueOf
                  (map tokensOf (filter hasMessagePayload (decoded ls)))))))
       \<and> (exactSums (map costOf (filter hasMessagePayload (decoded ls))) \<longrightarrow>
            totalCost s
              = JNum (Fin (sum_list (map valueOf
                  (map costOf (filter hasMessagePayload (decoded ls)))))))"
proof -
  from running_numeric [OF assms(3), of rt "length (filter isMessage (decoded ls))"]
    parse_totals [OF assms(1,2)]
  have t: "totalTokens s = JNum (floatSum (map tokensOf (filter hasMessagePayload (decoded ls))))"
    and c: "totalCost s = JNum (floatSum (map costOf (filter hasMessagePayload (decoded ls))))"
    by (auto simp: payload_sums)
  from t c show ?thesis
    by (auto simp: floatSum_exact)
qed

theorem totals_are_sums_witness:
  "map_sum id totalTokens (parseSessionFile plainRuntime usageLog) = Inr (JNum (Fin 200))
   \<and> map_sum id totalCost (parseSessionFile plainRuntime usageLog) = Inr (JNum (Fin 3))"
proof -
  obtain s where p: "parseSessionFile plainRuntime usageLog = Inr s"
    by (simp add: usageLog_def usageLines_def model_defs sample_defs)
  have l: "fileLines usageLog = Some (map Some usageLines)"
    by (simp add: usageLog_def logFile_def)
  have v: "\<forall>l\<in>set (filter isMessage (decoded (map Some usageLines))). validUsage l"
    by (simp add: usageLines_def sample_defs isMessage_def validUsage_def usageOf_def)
  have e: "exactSums (map tokensOf (filter hasMessagePayload (decoded (map Some usageLines))))"
    "exactSums (map costOf (filter hasMessagePayload (decoded (map Some usageLines))))"
    by (simp_all add: usageLines_def sample_defs exactSums_def usageOf_def
          hasMessagePayload_def tokensOf_def costOf_def)
  from totals_are_sums [OF p l v] e p show ?thesis
    by (simp add: usageLines_def sample_defs usageOf_def floatSum_def
          hasMessagePayload_def tokensOf_def costOf_def)
qed

lemma tenths_rounded:
  "toDouble (1 / 10) = Fin (3602879701896397 / 36028797018963968)"
  "toDouble (1 / 5) = Fin (3602879701896397 / 18014398509481984)"
  "toDouble (3602879701896397 / 36028797018963968) = Fin (3602879701896397 / 36028797018963968)"
  "toDouble (10808639105689191 / 36028797018963968) = Fin (1351079888211149 / 4503599627370496)"
  "toDouble 9007199254740993 = Fin 9007199254740992"
  by code_simp+

text \<open>
  Two replies that cost 0.1 and 0.2: the total is 0.30000000000000004, the double
  above the sum of the two decoded costs. And two replies that used \<open>2 ^ 53\<close> tokens
  and one token: the total is \<open>2 ^ 53\<close>.
\<close>

theorem totals_are_sums_counterexample:
  "map_sum id totalCost (parseSessionFile plainRuntime tenthsLog)
     = Inr (JNum (Fin (1351079888211149 / 4503599627370496)))
   \<and> sum_list (map valueOf (map costOf (filter hasMessagePayload (decoded (map Some tenthsLines)))))
     = 10808639105689191 / 36028797018963968
   \<and> map_sum id totalTokens (parseSessionFile plainRuntime hugeLog)
     = Inr (JNum (Fin 9007199254740992))
   \<and> sum_list (map valueOf (map tokensOf (filter hasMessagePayload (decoded (map Some hugeLines)))))
     = 9007199254740993"
  by (simp add: tenthsLog_def tenthsLines_def hugeLog_def hugeLines_def model_defs sample_defs
        tenths_rounded hasMessagePayload_def costOf_def tokensOf_def usageOf_def)


lemma exactFrom_counts:
  assumes "\<forall>x\<in>set xs. \<exists>k. 0 \<le> k \<and> x = Fin (of_int k)"
    and "0 \<le> m" and "of_int m + sum_list (map valueOf xs) \<le> 2 ^ 53"
  shows "exactFrom (of_int m) xs"
  using assms
proof (induction xs arbitrary: m)
  case Nil
  then show ?case by simp
next
  case (Cons x xs)
  from Cons.prems(1) obtain k where k: "0 \<le> k" and x: "x = Fin (of_int k)" by auto
  have r: "\<forall>y\<in>set xs. \<exists>k. 0 \<le> k \<and> y = Fin (of_int k)" using Cons.prems(1) by simp
  then have "\<forall>q\<in>set (map valueOf xs). 0 \<le> q" by auto
  then have n: "0 \<le> sum_list (map valueOf xs)" by (auto intro!: sum_list_nonneg)
  from Cons.prems(3) x have b: "rat_of_int (m + k) + sum_list (map valueOf xs) \<le> 2 ^ 53"
    by (simp add: add.assoc)
  with n have "rat_of_int (m + k) \<le> 2 ^ 53" by simp
  then have "rat_of_int (m + k) \<le> rat_of_int (2 ^ 53)" by simp
  then have "m + k \<le> 2 ^ 53" by (simp only: of_int_le_iff)
  with Cons.prems(2) k have "\<bar>m + k\<bar> \<le> 2 ^ 53" by simp
  then have d: "isDouble (of_int (m + k))" by (rule isDouble_int)
  from Cons.prems(2) k have "0 \<le> m + k" by simp
  from Cons.IH [OF r this b] d x show ?case by simp
qed

text \<open>
  X8. Token counts are whole numbers in practice. When every count of a summarized
  log is a whole number that is not negative, and their sum is at most \<open>2 ^ 53\<close>,
  no addition rounds: \<open>totalTokens\<close> is the exact sum of the counts.
\<close>

theorem whole_counts_add_exactly:
  assumes "parseSessionFile rt f = Inr s" and "fileLines f = Some ls"
    and "\<forall>l\<in>set (filter isMessage (decoded ls)). validUsage l"
    and "\<forall>l\<in>set (filter hasMessagePayload (decoded ls)).
           \<exists>k. 0 \<le> k \<and> tokensOf l = Fin (of_int k)"
    and "sum_list (map valueOf (map tokensOf (filter hasMessagePayload (decoded ls)))) \<le> 2 ^ 53"
  shows "totalTokens s
           = JNum (Fin (sum_list (map valueOf
               (map tokensOf (filter hasMessagePayload (decoded ls))))))"
proof -
  from running_numeric [OF assms(3), of rt "length (filter isMessage (decoded ls))"]
    parse_totals [OF assms(1,2)]
  have t: "totalTokens s = JNum (floatSum (map tokensOf (filter hasMessagePayload (decoded ls))))"
    by (auto simp: payload_sums)
  have "\<forall>x\<in>set (map tokensOf (filter hasMessagePayload (decoded ls))).
          \<exists>k. 0 \<le> k \<and> x = Fin (of_int k)"
    using assms(4) by auto
  from exactFrom_counts [OF this, of 0] assms(5)
  have "exactSums (map tokensOf (filter hasMessagePayload (decoded ls)))"
    by (simp add: exactSums_def)
  from floatSum_exact [OF this] t show ?thesis by simp
qed

theorem whole_counts_add_exactly_witness:
  "map_sum id totalTokens (parseSessionFile plainRuntime usageLog) = Inr (JNum (Fin 200))"
proof -
  obtain s where p: "parseSessionFile plainRuntime usageLog = Inr s"
    by (simp add: usageLog_def usageLines_def model_defs sample_defs)
  have l: "fileLines usageLog = Some (map Some usageLines)"
    by (simp add: usageLog_def logFile_def)
  have v: "\<forall>l\<in>set (filter isMessage (decoded (map Some usageLines))). validUsage l"
    by (simp add: usageLines_def sample_defs isMessage_def validUsage_def usageOf_def)
  have e: "filter hasMessagePayload (decoded (map Some usageLines)) = decoded (map Some usageLines)"
    and tk: "map tokensOf (decoded (map Some usageLines)) = [Fin 150, Fin 0, Fin 50]"
    by (simp_all add: usageLines_def sample_defs hasMessagePayload_def tokensOf_def usageOf_def)
  have "\<forall>x\<in>set [Fin 150, Fin 0, Fin 50]. \<exists>k. 0 \<le> k \<and> x = Fin (rat_of_int k)"
    by (auto intro: exI [of _ 150] exI [of _ 0] exI [of _ 50])
  then have "\<forall>x\<in>set (map tokensOf (decoded (map Some usageLines))).
           \<exists>k. 0 \<le> k \<and> x = Fin (rat_of_int k)"
    by (simp only: tk)
  then have c: "\<forall>l\<in>set (filter hasMessagePayload (decoded (map Some usageLines))).
           \<exists>k. 0 \<le> k \<and> tokensOf l = Fin (of_int k)"
    unfolding e by simp
  have b: "sum_list (map valueOf (map tokensOf
             (filter hasMessagePayload (decoded (map Some usageLines))))) \<le> 2 ^ 53"
    unfolding e tk by simp
  from whole_counts_add_exactly [OF p l v c b] p show ?thesis
    unfolding e tk by simp
qed


text \<open>Adding a number that is not negative to a total that is not negative never
  lowers the total, although the sum is rounded.\<close>

lemma le_refl_nonneg: "le (Fin 0) x \<Longrightarrow> le x x"
  by (cases x) simp_all

lemma numAdd_nonneg:
  assumes "le (Fin 0) x" and "isJsNumber x" and "le (Fin 0) y"
  shows "le x (numAdd x y)" and "le (Fin 0) (numAdd x y)"
  using assms numAdd_grows
  by (cases x; cases y; simp)+

lemma floatSum_snoc: "floatSum (xs @ [x]) = numAdd (floatSum xs) x"
  by (simp add: floatSum_def)

lemma isJsNumber_floatSum [simp]: "isJsNumber (floatSum xs)"
  by (induction xs rule: rev_induct) (simp_all add: floatSum_def)

lemma floatSum_nonneg: "\<forall>x\<in>set xs. le (Fin 0) x \<Longrightarrow> le (Fin 0) (floatSum xs)"
proof (induction xs rule: rev_induct)
  case Nil
  then show ?case by (simp add: floatSum_def)
next
  case (snoc x xs)
  then have "le (Fin 0) (floatSum xs)" and "le (Fin 0) x" by simp_all
  from numAdd_nonneg(2) [OF this(1) isJsNumber_floatSum this(2)] show ?case
    by (simp add: floatSum_snoc)
qed

lemma floatSum_take_Suc:
  assumes "\<forall>x\<in>set xs. le (Fin 0) x"
  shows "le (floatSum (take n xs)) (floatSum (take (Suc n) xs))"
proof -
  have "\<forall>x\<in>set (take n xs). le (Fin 0) x"
    using assms by (auto dest: in_set_takeD)
  then have p: "le (Fin 0) (floatSum (take n xs))" by (rule floatSum_nonneg)
  show ?thesis
  proof (cases "n < length xs")
    case True
    then have "le (Fin 0) (xs ! n)" using assms by simp
    from numAdd_nonneg(1) [OF p isJsNumber_floatSum this] True show ?thesis
      by (simp add: take_Suc_conv_app_nth floatSum_snoc)
  next
    case False
    with p show ?thesis by (simp add: le_refl_nonneg)
  qed
qed

text \<open>
  C8, as amended. The source adds what the log holds and never looks at the sign.
  When every token count and cost total of the message events is a number that is
  not negative, or is absent, both totals of the summary are numbers that are not
  negative, and during the pass the totals after \<open>n + 1\<close> message events are never
  below the totals after \<open>n\<close>.
\<close>

theorem totals_never_decrease:
  assumes "parseSessionFile rt f = Inr s" and "fileLines f = Some ls"
    and "\<forall>l\<in>set (filter isMessage (decoded ls)).
           validUsage l \<and> le (Fin 0) (tokensOf l) \<and> le (Fin 0) (costOf l)"
  shows "(\<exists>t c. totalTokens s = JNum t \<and> totalCost s = JNum c \<and> le (Fin 0) t \<and> le (Fin 0) c)
       \<and> (\<forall>n. \<exists>a b. runningTotals rt (decoded ls) n = Inr a
                 \<and> runningTotals rt (decoded ls) (Suc n) = Inr b
                 \<and> le (toNumber (accTokens a)) (toNumber (accTokens b))
                 \<and> le (toNumber (accCost a)) (toNumber (accCost b)))"
proof
  have v: "\<forall>l\<in>set (filter isMessage (decoded ls)). validUsage l"
    using assms(3) by simp
  have tk: "\<forall>x\<in>set (map tokensOf (filter isMessage (decoded ls))). le (Fin 0) x"
    and ck: "\<forall>x\<in>set (map costOf (filter isMessage (decoded ls))). le (Fin 0) x"
    using assms(3) by simp_all
  have "le (Fin 0) (floatSum (map tokensOf (filter isMessage (decoded ls))))"
    and "le (Fin 0) (floatSum (map costOf (filter isMessage (decoded ls))))"
    using tk ck by (simp_all only: floatSum_nonneg)
  with running_numeric [OF v, of rt "length (filter isMessage (decoded ls))"]
    parse_totals [OF assms(1,2)]
  show "\<exists>t c. totalTokens s = JNum t \<and> totalCost s = JNum c \<and> le (Fin 0) t \<and> le (Fin 0) c"
    by auto
  show "\<forall>n. \<exists>a b. runningTotals rt (decoded ls) n = Inr a
                 \<and> runningTotals rt (decoded ls) (Suc n) = Inr b
                 \<and> le (toNumber (accTokens a)) (toNumber (accTokens b))
                 \<and> le (toNumber (accCost a)) (toNumber (accCost b))"
  proof
    fix n
    from running_numeric [OF v, of rt n] obtain a
      where a: "runningTotals rt (decoded ls) n = Inr a"
        "accTokens a = JNum (floatSum (map tokensOf (take n (filter isMessage (decoded ls)))))"
        "accCost a = JNum (floatSum (map costOf (take n (filter isMessage (decoded ls)))))"
      by blast
    from running_numeric [OF v, of rt "Suc n"] obtain b
      where b: "runningTotals rt (decoded ls) (Suc n) = Inr b"
        "accTokens b = JNum (floatSum (map tokensOf (take (Suc n) (filter isMessage (decoded ls)))))"
        "accCost b = JNum (floatSum (map costOf (take (Suc n) (filter isMessage (decoded ls)))))"
      by blast
    from a b floatSum_take_Suc [OF tk, of n] floatSum_take_Suc [OF ck, of n]
    show "\<exists>a b. runningTotals rt (decoded ls) n = Inr a
                 \<and> runningTotals rt (decoded ls) (Suc n) = Inr b
                 \<and> le (toNumber (accTokens a)) (toNumber (accTokens b))
                 \<and> le (toNumber (accCost a)) (toNumber (accCost b))"
      by (simp add: take_map)
  qed
qed

theorem totals_never_decrease_witness:
  "(\<exists>t c. map_sum id totalTokens (parseSessionFile plainRuntime usageLog) = Inr (JNum t)
          \<and> map_sum id totalCost (parseSessionFile plainRuntime usageLog) = Inr (JNum c)
          \<and> le (Fin 0) t \<and> le (Fin 0) c)
   \<and> (\<forall>n. \<exists>a b. runningTotals plainRuntime (decoded (map Some usageLines)) n = Inr a
             \<and> runningTotals plainRuntime (decoded (map Some usageLines)) (Suc n) = Inr b
             \<and> le (toNumber (accTokens a)) (toNumber (accTokens b))
             \<and> le (toNumber (accCost a)) (toNumber (accCost b)))"
proof -
  obtain s where p: "parseSessionFile plainRuntime usageLog = Inr s"
    by (simp add: usageLog_def usageLines_def model_defs sample_defs)
  have l: "fileLines usageLog = Some (map Some usageLines)"
    by (simp add: usageLog_def logFile_def)
  have h: "\<forall>l\<in>set (filter isMessage (decoded (map Some usageLines))).
             validUsage l \<and> le (Fin 0) (tokensOf l) \<and> le (Fin 0) (costOf l)"
    by (simp add: usageLines_def sample_defs isMessage_def validUsage_def usageOf_def
          tokensOf_def costOf_def)
  from totals_never_decrease [OF p l h] p show ?thesis
    by simp
qed

text \<open>A usage of \<open>- 5\<close> tokens gives a total of \<open>- 5\<close>.\<close>

theorem totals_never_decrease_counterexample:
  "map_sum id totalTokens (parseSessionFile plainRuntime negativeUsageLog) = Inr (JNum (Fin (- 5)))"
  by (simp add: negativeUsageLog_def model_defs sample_defs)


section \<open>The status of an active log\<close>

text \<open>
  C1, as amended. In the summary of a log that is not archived the status is
  \<^verbatim>\<open>idle\<close> when the accumulated token total is not greater than zero; otherwise it is the status left
  by the last message event with a stop reason: \<^verbatim>\<open>running\<close> for \<^verbatim>\<open>toolUse\<close>,
  \<^verbatim>\<open>completed\<close> for any other, \<^verbatim>\<open>idle\<close> when no message event had one.
\<close>

theorem status_of_active_log:
  assumes "parseSessionFile rt f = Inr s" and "fileLines f = Some ls"
    and "\<not> includes_str (fileName f) (lit ''.deleted'')"
  shows "status s = (if js_positive rt (totalTokens s) then lastStopStatus (decoded ls)
                     else ''idle'')"
  using parse_status [OF assms(1,2)] assms(3)
  by (simp add: resolveStatus_def)

theorem status_of_active_log_witness:
  "map_sum id status (parseSessionFile plainRuntime usageLog) = Inr ''running''"
proof -
  obtain s where p: "parseSessionFile plainRuntime usageLog = Inr s"
    and t: "totalTokens s = JNum (Fin 200)"
    by (simp add: usageLog_def usageLines_def model_defs sample_defs)
  have l: "fileLines usageLog = Some (map Some usageLines)"
    and n: "\<not> includes_str (fileName usageLog) (lit ''.deleted'')"
    by (simp_all add: usageLog_def logFile_def lit_def)
  have "lastStopStatus (decoded (map Some usageLines)) = ''running''"
    by (simp add: lastStopStatus_def usageLines_def sample_defs isMessage_def
          stopReasonOf_def stopStatus_def)
  with status_of_active_log [OF p l n] t p show ?thesis
    by simp
qed

text \<open>
  A log whose only message event has a usage of zero tokens and the stop reason
  \<^verbatim>\<open>stop\<close>: a message event with usage exists and the last stop reason stands for
  \<^verbatim>\<open>completed\<close>, yet the status is \<^verbatim>\<open>idle\<close>.
\<close>

theorem status_of_active_log_counterexample:
  "map_sum id status (parseSessionFile plainRuntime zeroUsageLog) = Inr ''idle''
   \<and> filter hasUsage (filter isMessage zeroUsageLines) = zeroUsageLines
   \<and> length zeroUsageLines = 1
   \<and> lastStopStatus zeroUsageLines = ''completed''
   \<and> includes_str (fileName zeroUsageLog) (lit ''.deleted'') = False"
  by (simp add: zeroUsageLog_def zeroUsageLines_def model_defs sample_defs
        lastStopStatus_def isMessage_def hasUsage_def usageOf_def stopReasonOf_def
        stopStatus_def)

section \<open>The model\<close>

lemma find_first:
  "\<forall>x\<in>set pre. \<not> P x \<Longrightarrow> P l \<Longrightarrow> find P (pre @ l # post) = Some l"
  by (induction pre) simp_all

lemma parse_model:
  assumes "parseSessionFile rt f = Inr s" and "fileLines f = Some ls"
  shows "model s =
     (case find isModelSnapshot (decoded ls) of
        None \<Rightarrow> messageModel (decoded ls)
      | Some l \<Rightarrow> if truthy (snapshotModel l) then snapshotModel l
                  else messageModel (decoded ls))"
proof -
  from parseSessionFile_InrD [OF assms(1)] assms(2) obtain st
    where p: "parseLines rt (fileName f) st (decoded ls) = Inr s" by auto
  from parseLines_InrD(2) [OF p] obtain a
    where a: "accumulate rt initialTotals (filter isMessage (decoded ls)) = Inr a"
      and m: "overrideModel (decoded ls) (accModel a) = Inr (model s)"
    by auto
  from parse_totals [OF assms] a have am: "accModel a = messageModel (decoded ls)"
    by (simp add: runningTotals_def)
  have "\<forall>x\<in>set (decoded ls). isModelLine x = Inr (isModelSnapshot x)"
    using parseLines_InrD(1) [OF p] by (metis isModelLine_pure)
  then have "findE isModelLine (decoded ls) = Inr (find isModelSnapshot (decoded ls))"
    by (rule findE_pure)
  with m am show ?thesis
    by (auto simp: overrideModel_def Let_def snapshotModel_def split: option.splits)
qed

text \<open>
  C5, as amended. When the first event of the log that is tagged \<^verbatim>\<open>model-snapshot\<close>
  carries a non-empty (truthy) \<^verbatim>\<open>modelId\<close>, the model of the summary is that
  \<^verbatim>\<open>modelId\<close>, wherever the message events stand and whatever model they name.
  Snapshot events after the first are not consulted.
\<close>

theorem snapshot_model_wins:
  assumes "parseSessionFile rt f = Inr s" and "fileLines f = Some ls"
    and "decoded ls = pre @ l # post"
    and "\<forall>x\<in>set pre. \<not> isModelSnapshot x"
    and "isModelSnapshot l" and "truthy (snapshotModel l)"
  shows "model s = snapshotModel l"
  using parse_model [OF assms(1,2)] find_first [OF assms(4,5), of post] assms(3,6)
  by simp

theorem snapshot_model_wins_witness:
  "map_sum id model (parseSessionFile plainRuntime twoSnapshotLog) = Inr (JStr (lit ''model-a''))"
proof -
  obtain s where p: "parseSessionFile plainRuntime twoSnapshotLog = Inr s"
    by (simp add: twoSnapshotLog_def twoSnapshotLines_def model_defs sample_defs)
  have l: "fileLines twoSnapshotLog = Some (map Some twoSnapshotLines)"
    by (simp add: twoSnapshotLog_def logFile_def)
  have d: "decoded (map Some twoSnapshotLines) =
      [] @ taggedEvent ''custom'' ''model-snapshot'' [(''modelId'', str ''model-a'')]
         # [messageEvent [(''model'', str ''model-x'')],
            taggedEvent ''custom'' ''model-snapshot'' [(''modelId'', str ''model-b'')]]"
    by (simp add: decoded_map_Some twoSnapshotLines_def taggedEvent_def messageEvent_def
          obj_def str_def)
  have "model s = snapshotModel (taggedEvent ''custom'' ''model-snapshot'' [(''modelId'', str ''model-a'')])"
    by (rule snapshot_model_wins [OF p l d])
       (simp_all add: isModelSnapshot_def snapshotModel_def taggedEvent_def obj_def str_def)
  with p show ?thesis
    by (simp add: snapshotModel_def taggedEvent_def obj_def str_def)
qed

text \<open>
  A log with two snapshot events: the model of the summary is the identifier of the
  first, not that of the \<^verbatim>\<open>custom\<close> snapshot event at the end of the log. And a log
  whose only \<^verbatim>\<open>custom\<close> snapshot event carries an identifier, behind an event of
  another type that is tagged \<^verbatim>\<open>model-snapshot\<close> and has none: the model is the one
  the message event named.
\<close>

theorem snapshot_model_wins_counterexample:
  "map_sum id model (parseSessionFile plainRuntime twoSnapshotLog) = Inr (JStr (lit ''model-a''))
   \<and> get (twoSnapshotLines ! 2) (lit ''type'') = JStr (lit ''custom'')
   \<and> isModelSnapshot (twoSnapshotLines ! 2)
   \<and> snapshotModel (twoSnapshotLines ! 2) = JStr (lit ''model-b'')
   \<and> map_sum id model (parseSessionFile plainRuntime emptySnapshotLog) = Inr (JStr (lit ''model-x''))
   \<and> filter (\<lambda>l. get l (lit ''type'') = JStr (lit ''custom'') \<and> isModelSnapshot l) emptySnapshotLines
       = [emptySnapshotLines ! 2]
   \<and> snapshotModel (emptySnapshotLines ! 2) = JStr (lit ''model-b'')"
  by (simp add: twoSnapshotLog_def twoSnapshotLines_def emptySnapshotLog_def
        emptySnapshotLines_def model_defs sample_defs isModelSnapshot_def snapshotModel_def)

text \<open>
  C10. The override looks at the first event whose \<^verbatim>\<open>customType\<close> is
  \<^verbatim>\<open>model-snapshot\<close> and at no other; nothing is asked of its \<^verbatim>\<open>type\<close>. For any
  events after it, when this event has no truthy \<^verbatim>\<open>modelId\<close> the model stays what
  the message events left, also when a later snapshot event carries an identifier.
\<close>

theorem first_snapshot_decides:
  assumes "parseSessionFile rt f = Inr s" and "fileLines f = Some ls"
    and "decoded ls = pre @ l # post"
    and "\<forall>x\<in>set pre. \<not> isModelSnapshot x"
    and "isModelSnapshot l"
  shows "model s = (if truthy (snapshotModel l) then snapshotModel l
                    else messageModel (decoded ls))"
  using parse_model [OF assms(1,2)] find_first [OF assms(4,5), of post] assms(3)
  by simp

theorem first_snapshot_decides_witness:
  "map_sum id model (parseSessionFile plainRuntime emptySnapshotLog) = Inr (JStr (lit ''model-x''))"
proof -
  obtain s where p: "parseSessionFile plainRuntime emptySnapshotLog = Inr s"
    by (simp add: emptySnapshotLog_def emptySnapshotLines_def model_defs sample_defs)
  have l: "fileLines emptySnapshotLog = Some (map Some emptySnapshotLines)"
    by (simp add: emptySnapshotLog_def logFile_def)
  have d: "decoded (map Some emptySnapshotLines) =
      [messageEvent [(''model'', str ''model-x'')]]
      @ taggedEvent ''note'' ''model-snapshot'' []
      # [taggedEvent ''custom'' ''model-snapshot'' [(''modelId'', str ''model-b'')]]"
    by (simp add: decoded_map_Some emptySnapshotLines_def taggedEvent_def messageEvent_def
          obj_def str_def)
  have "model s =
      (if truthy (snapshotModel (taggedEvent ''note'' ''model-snapshot'' []))
       then snapshotModel (taggedEvent ''note'' ''model-snapshot'' [])
       else messageModel (decoded (map Some emptySnapshotLines)))"
    by (rule first_snapshot_decides [OF p l d])
       (simp_all add: isModelSnapshot_def sample_defs)
  with p show ?thesis
    by (simp add: snapshotModel_def emptySnapshotLines_def sample_defs messageModel_def
          isMessage_def modelOf_def)
qed


section \<open>The label\<close>

subsection \<open>Containment and trimming\<close>



lemma dropWhile_all: "\<forall>c\<in>set a. P c \<Longrightarrow> dropWhile P (a @ ys) = dropWhile P ys"
  by (induction a) simp_all

lemma dropWhile_head: "ys \<noteq> [] \<Longrightarrow> \<not> P (hd ys) \<Longrightarrow> dropWhile P ys = ys"
  by (cases ys) simp_all

lemma trim_isTrimOf: "isTrimOf g (trim g)"
proof -
  define rest where "rest = dropWhile isSpace g"
  define a where "a = takeWhile isSpace g"
  define b where "b = rev (takeWhile isSpace (rev rest))"
  have u: "trim g = rev (dropWhile isSpace (rev rest))" by (simp add: trim_def rest_def)
  have "rest = rev (takeWhile isSpace (rev rest) @ dropWhile isSpace (rev rest))" by simp
  then have r: "rest = trim g @ b" unfolding u b_def by (simp only: rev_append)
  have g: "g = a @ trim g @ b"
    using r takeWhile_dropWhile_id [of isSpace g] by (simp add: a_def rest_def)
  have sa: "\<forall>c\<in>set a. isSpace c" by (auto simp: a_def dest: set_takeWhileD)
  have sb: "\<forall>c\<in>set b. isSpace c" by (auto simp: b_def dest: set_takeWhileD)
  have e: "\<not> isSpace (hd (trim g)) \<and> \<not> isSpace (last (trim g))" if n: "trim g \<noteq> []"
  proof
    from n r have "rest \<noteq> []" by auto
    then have "\<not> isSpace (hd rest)" unfolding rest_def by (rule hd_dropWhile)
    with n r show "\<not> isSpace (hd (trim g))" by (metis hd_append2)
    from n have d: "dropWhile isSpace (rev rest) \<noteq> []" by (simp add: u)
    then have "\<not> isSpace (hd (dropWhile isSpace (rev rest)))" by (rule hd_dropWhile)
    with d show "\<not> isSpace (last (trim g))" by (simp add: u last_rev)
  qed
  from g sa sb e show ?thesis unfolding isTrimOf_def by blast
qed

lemma isTrimOf_unique:
  assumes "isTrimOf g u"
  shows "u = trim g"
proof -
  from assms obtain a b where g: "g = a @ u @ b"
    and sa: "\<forall>c\<in>set a. isSpace c" and sb: "\<forall>c\<in>set b. isSpace c"
    and e: "u = [] \<or> (\<not> isSpace (hd u) \<and> \<not> isSpace (last u))"
    unfolding isTrimOf_def by blast
  show ?thesis
  proof (cases "u = []")
    case True
    with g sa sb have "\<forall>c\<in>set g. isSpace c" by auto
    then have d: "dropWhile isSpace g = []" by (simp only: dropWhile_eq_Nil_conv)
    show ?thesis unfolding trim_def d using True by simp
  next
    case False
    with e have h: "\<not> isSpace (hd u)" and l: "\<not> isSpace (last u)" by simp_all
    from False h have "dropWhile isSpace (u @ b) = u @ b"
      by (intro dropWhile_head) simp_all
    with g sa have d: "dropWhile isSpace g = u @ b" by (simp add: dropWhile_all)
    have sr: "\<forall>c\<in>set (rev b). isSpace c" using sb by simp
    from False l have "dropWhile isSpace (rev u) = rev u"
      by (intro dropWhile_head) (simp_all add: hd_rev)
    with sr have "dropWhile isSpace (rev b @ rev u) = rev u" by (simp add: dropWhile_all)
    with d show ?thesis by (simp add: trim_def)
  qed
qed


subsection \<open>The matcher finds the leftmost occurrence with the longest separator\<close>

lemma takeWhile_longest: "\<forall>c\<in>set p. P c \<Longrightarrow> takeWhile P (p @ x) = p @ takeWhile P x"
  by (simp add: takeWhile_append2)

lemma groupFrom_None:
  "groupFrom k r = None \<Longrightarrow> 1 \<le> j \<Longrightarrow> j \<le> k \<Longrightarrow> takeWhile classB (drop j r) = []"
proof (induction k)
  case 0
  then show ?case by simp
next
  case (Suc k)
  from Suc.prems(1) have a: "takeWhile classB (drop (Suc k) r) = []"
    and b: "groupFrom k r = None"
    by (auto split: list.splits)
  show ?case
  proof (cases "j = Suc k")
    case True
    with a show ?thesis by simp
  next
    case False
    with Suc.prems have "j \<le> k" by simp
    from Suc.IH [OF b Suc.prems(2) this] show ?thesis .
  qed
qed

lemma groupFrom_Some:
  "groupFrom k r = Some g \<Longrightarrow>
   \<exists>j. 1 \<le> j \<and> j \<le> k \<and> g = takeWhile classB (drop j r) \<and> g \<noteq> []
       \<and> (\<forall>i. j < i \<and> i \<le> k \<longrightarrow> takeWhile classB (drop i r) = [])"
proof (induction k)
  case 0
  then show ?case by simp
next
  case (Suc k)
  show ?case
  proof (cases "takeWhile classB (drop (Suc k) r)")
    case Nil
    with Suc.prems have "groupFrom k r = Some g" by simp
    from Suc.IH [OF this] obtain j where j: "1 \<le> j" "j \<le> k"
      "g = takeWhile classB (drop j r)" "g \<noteq> []"
      "\<forall>i. j < i \<and> i \<le> k \<longrightarrow> takeWhile classB (drop i r) = []"
      by blast
    have "\<forall>i. j < i \<and> i \<le> Suc k \<longrightarrow> takeWhile classB (drop i r) = []"
    proof (intro allI impI)
      fix i assume i: "j < i \<and> i \<le> Suc k"
      show "takeWhile classB (drop i r) = []"
      proof (cases "i = Suc k")
        case True
        with Nil show ?thesis by simp
      next
        case False
        with i j(5) show ?thesis by simp
      qed
    qed
    with j show ?thesis
      by (intro exI [of _ j]) simp
  next
    case (Cons c cs)
    with Suc.prems have "g = takeWhile classB (drop (Suc k) r)" by simp
    with Cons show ?thesis
      by (intro exI [of _ "Suc k"]) simp
  qed
qed

lemma occursAfter_bounds:
  assumes "occursAfter r sep g"
  shows "1 \<le> length sep" and "length sep \<le> length (takeWhile classA r)"
    and "length g \<le> length (takeWhile classB (drop (length sep) r))"
    and "takeWhile classB (drop (length sep) r) \<noteq> []"
proof -
  from assms obtain rest where r: "r = sep @ g @ rest" and s: "sep \<noteq> []"
    and a: "\<forall>c\<in>set sep. classA c" and g: "g \<noteq> []" and b: "\<forall>c\<in>set g. classB c"
    unfolding occursAfter_def by blast
  from s show "1 \<le> length sep" by (cases sep) simp_all
  from takeWhile_longest [OF a, of "g @ rest"] r
  show "length sep \<le> length (takeWhile classA r)" by simp
  from r have d: "drop (length sep) r = g @ rest" by simp
  from takeWhile_longest [OF b, of rest] d
  have t: "takeWhile classB (drop (length sep) r) = g @ takeWhile classB rest" by simp
  then show "length g \<le> length (takeWhile classB (drop (length sep) r))" by simp
  from t g show "takeWhile classB (drop (length sep) r) \<noteq> []" by simp
qed

lemma occursAfter_take:
  assumes "1 \<le> j" and "j \<le> length (takeWhile classA r)"
    and "takeWhile classB (drop j r) \<noteq> []"
  shows "occursAfter r (take j r) (takeWhile classB (drop j r))"
proof -
  have l: "length (takeWhile classA r) \<le> length r" by (rule length_takeWhile_le)
  have "take j r = take j (takeWhile classA r @ dropWhile classA r)" by simp
  also have "\<dots> = take j (takeWhile classA r)" using assms(2) by (simp only: take_append) simp
  finally have t: "take j r = take j (takeWhile classA r)" .
  have a: "\<forall>c\<in>set (take j r). classA c"
    unfolding t by (auto dest!: in_set_takeD dest: set_takeWhileD)
  have n: "take j r \<noteq> []" using assms(1,2) l by (cases r) auto
  have b: "\<forall>c\<in>set (takeWhile classB (drop j r)). classB c"
    by (auto dest: set_takeWhileD)
  have "r = take j r @ drop j r" by simp
  also have "drop j r = takeWhile classB (drop j r) @ dropWhile classB (drop j r)" by simp
  finally have "r = take j r @ takeWhile classB (drop j r) @ dropWhile classB (drop j r)" .
  with a n b assms(3) show ?thesis unfolding occursAfter_def by blast
qed

lemma matchAfterWord_None: "matchAfterWord r = None \<Longrightarrow> \<not> occursAfter r sep g"
proof
  assume n: "matchAfterWord r = None" and o: "occursAfter r sep g"
  from groupFrom_None [OF n [unfolded matchAfterWord_def] occursAfter_bounds(1,2) [OF o]]
    occursAfter_bounds(4) [OF o]
  show False by simp
qed

lemma matchAfterWord_Some:
  assumes "matchAfterWord r = Some g"
  shows "\<exists>sep. occursAfter r sep g
           \<and> (\<forall>sep' g'. occursAfter r sep' g' \<longrightarrow> length sep' \<le> length sep)
           \<and> (\<forall>g'. occursAfter r sep g' \<longrightarrow> length g' \<le> length g)"
proof -
  from groupFrom_Some [OF assms [unfolded matchAfterWord_def]]
  obtain j where j: "1 \<le> j" "j \<le> length (takeWhile classA r)"
    and g: "g = takeWhile classB (drop j r)" and n: "g \<noteq> []"
    and m: "\<forall>i. j < i \<and> i \<le> length (takeWhile classA r) \<longrightarrow> takeWhile classB (drop i r) = []"
    by blast
  have l: "length (take j r) = j"
    using j(2) length_takeWhile_le [of classA r] by simp
  have o: "occursAfter r (take j r) g"
    using occursAfter_take [OF j] n by (simp add: g)
  have s: "length sep' \<le> length (take j r)" if "occursAfter r sep' g'" for sep' g'
  proof (rule ccontr)
    assume "\<not> length sep' \<le> length (take j r)"
    with l have "j < length sep'" by simp
    with m occursAfter_bounds(2) [OF that]
    have "takeWhile classB (drop (length sep') r) = []" by simp
    with occursAfter_bounds(4) [OF that] show False by simp
  qed
  have k: "length g' \<le> length g" if "occursAfter r (take j r) g'" for g'
    using occursAfter_bounds(3) [OF that] unfolding l g .
  from o s k show ?thesis by blast
qed

lemma word_length: "map lower w = lit ''label'' \<Longrightarrow> length w = 5"
proof -
  assume "map lower w = lit ''label''"
  then have "length (map lower w) = length (lit ''label'')" by simp
  then show ?thesis by (simp add: lit_def)
qed

lemma occursAt_iff:
  "occursAt r sep g = (map lower (take 5 r) = lit ''label'' \<and> occursAfter (drop 5 r) sep g)"
proof
  assume "occursAt r sep g"
  then obtain w r' where r: "r = w @ r'" and w: "map lower w = lit ''label''"
    and o: "occursAfter r' sep g"
    unfolding occursAt_def by blast
  from word_length [OF w] r have "take 5 r = w" and "drop 5 r = r'" by simp_all
  with w o show "map lower (take 5 r) = lit ''label'' \<and> occursAfter (drop 5 r) sep g" by simp
next
  assume a: "map lower (take 5 r) = lit ''label'' \<and> occursAfter (drop 5 r) sep g"
  have "r = take 5 r @ drop 5 r" by simp
  with a show "occursAt r sep g" unfolding occursAt_def by blast
qed

lemma labelMatch_None:
  "labelMatch t = None \<Longrightarrow> t = pre @ r \<Longrightarrow>
   \<not> (map lower (take 5 r) = lit ''label'' \<and> matchAfterWord (drop 5 r) \<noteq> None)"
proof (induction t arbitrary: pre)
  case Nil
  then show ?case by simp
next
  case (Cons c cs)
  from Cons.prems(1)
  have h: "\<not> (map lower (take 5 (c # cs)) = lit ''label''
              \<and> matchAfterWord (drop 5 (c # cs)) \<noteq> None)"
    and n: "labelMatch cs = None"
    by (auto split: if_splits option.splits)
  show ?case
  proof (cases pre)
    case Nil
    with Cons.prems(2) h show ?thesis by simp
  next
    case (Cons d ds)
    with Cons.prems(2) have "cs = ds @ r" by simp
    from Cons.IH [OF n this] show ?thesis .
  qed
qed

lemma labelMatch_Some:
  "labelMatch t = Some g \<Longrightarrow>
   \<exists>pre r. t = pre @ r \<and> map lower (take 5 r) = lit ''label''
     \<and> matchAfterWord (drop 5 r) = Some g
     \<and> (\<forall>pre' r'. t = pre' @ r' \<and> length pre' < length pre \<longrightarrow>
          \<not> (map lower (take 5 r') = lit ''label'' \<and> matchAfterWord (drop 5 r') \<noteq> None))"
proof (induction t)
  case Nil
  then show ?case by simp
next
  case (Cons c cs)
  show ?case
  proof (cases "map lower (take 5 (c # cs)) = lit ''label''
                \<and> matchAfterWord (drop 5 (c # cs)) \<noteq> None")
    case True
    with Cons.prems have "matchAfterWord (drop 5 (c # cs)) = Some g"
      by (auto split: option.splits)
    with True have "c # cs = [] @ (c # cs) \<and> map lower (take 5 (c # cs)) = lit ''label''
      \<and> matchAfterWord (drop 5 (c # cs)) = Some g
      \<and> (\<forall>pre' r'. c # cs = pre' @ r' \<and> length pre' < length ([]::nat list) \<longrightarrow>
          \<not> (map lower (take 5 r') = lit ''label'' \<and> matchAfterWord (drop 5 r') \<noteq> None))"
      by simp
    then show ?thesis by blast
  next
    case False
    with Cons.prems have "labelMatch cs = Some g"
      by (auto split: if_splits option.splits)
    from Cons.IH [OF this] obtain pre r where p: "cs = pre @ r"
      and w: "map lower (take 5 r) = lit ''label''"
      and m: "matchAfterWord (drop 5 r) = Some g"
      and f: "\<forall>pre' r'. cs = pre' @ r' \<and> length pre' < length pre \<longrightarrow>
          \<not> (map lower (take 5 r') = lit ''label'' \<and> matchAfterWord (drop 5 r') \<noteq> None)"
      by blast
    have "\<forall>pre' r'. c # cs = pre' @ r' \<and> length pre' < length (c # pre) \<longrightarrow>
          \<not> (map lower (take 5 r') = lit ''label'' \<and> matchAfterWord (drop 5 r') \<noteq> None)"
    proof (intro allI impI)
      fix pre' r'
      assume a: "c # cs = pre' @ r' \<and> length pre' < length (c # pre)"
      show "\<not> (map lower (take 5 r') = lit ''label'' \<and> matchAfterWord (drop 5 r') \<noteq> None)"
      proof (cases pre')
        case Nil
        with a False show ?thesis by simp
      next
        case (Cons d ds)
        with a have "cs = ds @ r' \<and> length ds < length pre" by simp
        with f show ?thesis by blast
      qed
    qed
    moreover from p have "c # cs = (c # pre) @ r" by simp
    ultimately show ?thesis using w m by blast
  qed
qed

lemma labelMatch_noLabelMatch: "labelMatch t = None \<Longrightarrow> noLabelMatch t"
  unfolding noLabelMatch_def
proof (intro allI impI notI)
  fix pre r sep g
  assume n: "labelMatch t = None" and t: "t = pre @ r" and o: "occursAt r sep g"
  from o have w: "map lower (take 5 r) = lit ''label''" and a: "occursAfter (drop 5 r) sep g"
    by (simp_all add: occursAt_iff)
  from a matchAfterWord_None [of "drop 5 r" sep g] have "matchAfterWord (drop 5 r) \<noteq> None"
    by blast
  with labelMatch_None [OF n t] w show False by simp
qed

lemma labelMatch_isLabelMatch:
  assumes "labelMatch t = Some g"
  shows "isLabelMatch t g"
proof -
  from labelMatch_Some [OF assms] obtain pre r where t: "t = pre @ r"
    and w: "map lower (take 5 r) = lit ''label''"
    and m: "matchAfterWord (drop 5 r) = Some g"
    and f: "\<forall>pre' r'. t = pre' @ r' \<and> length pre' < length pre \<longrightarrow>
          \<not> (map lower (take 5 r') = lit ''label'' \<and> matchAfterWord (drop 5 r') \<noteq> None)"
    by blast
  from matchAfterWord_Some [OF m] obtain sep where o: "occursAfter (drop 5 r) sep g"
    and s: "\<forall>sep' g'. occursAfter (drop 5 r) sep' g' \<longrightarrow> length sep' \<le> length sep"
    and k: "\<forall>g'. occursAfter (drop 5 r) sep g' \<longrightarrow> length g' \<le> length g"
    by blast
  have 1: "occursAt r sep g" using w o by (simp add: occursAt_iff)
  have 2: "\<forall>pre' r' sep' g'. t = pre' @ r' \<and> occursAt r' sep' g' \<longrightarrow> length pre \<le> length pre'"
  proof (intro allI impI)
    fix pre' r' sep' g'
    assume a: "t = pre' @ r' \<and> occursAt r' sep' g'"
    then have w': "map lower (take 5 r') = lit ''label''"
      and o': "occursAfter (drop 5 r') sep' g'"
      by (simp_all add: occursAt_iff)
    from o' matchAfterWord_None [of "drop 5 r'" sep' g']
    have "matchAfterWord (drop 5 r') \<noteq> None" by blast
    with w' have c: "map lower (take 5 r') = lit ''label''
        \<and> matchAfterWord (drop 5 r') \<noteq> None" by simp
    show "length pre \<le> length pre'"
    proof (rule ccontr)
      assume "\<not> length pre \<le> length pre'"
      then have "length pre' < length pre" by simp
      with f a c show False by blast
    qed
  qed
  have 3: "\<forall>sep' g'. occursAt r sep' g' \<longrightarrow> length sep' \<le> length sep"
    using s by (simp add: occursAt_iff)
  have 4: "\<forall>g'. occursAt r sep g' \<longrightarrow> length g' \<le> length g"
    using k by (simp add: occursAt_iff)
  from t 1 2 3 4 show ?thesis unfolding isLabelMatch_def by blast
qed

lemma isLabelMatch_unique:
  assumes "isLabelMatch t g" and "isLabelMatch t h"
  shows "g = h"
proof -
  from assms(1) obtain pre r sep where t: "t = pre @ r" and o: "occursAt r sep g"
    and l: "\<forall>pre' r' sep' g'. t = pre' @ r' \<and> occursAt r' sep' g' \<longrightarrow> length pre \<le> length pre'"
    and s: "\<forall>sep' g'. occursAt r sep' g' \<longrightarrow> length sep' \<le> length sep"
    and k: "\<forall>g'. occursAt r sep g' \<longrightarrow> length g' \<le> length g"
    unfolding isLabelMatch_def by blast
  from assms(2) obtain pre2 r2 sep2 where t2: "t = pre2 @ r2" and o2: "occursAt r2 sep2 h"
    and l2: "\<forall>pre' r' sep' g'. t = pre' @ r' \<and> occursAt r' sep' g' \<longrightarrow> length pre2 \<le> length pre'"
    and s2: "\<forall>sep' g'. occursAt r2 sep' g' \<longrightarrow> length sep' \<le> length sep2"
    and k2: "\<forall>g'. occursAt r2 sep2 g' \<longrightarrow> length g' \<le> length h"
    unfolding isLabelMatch_def by blast
  from l t2 o2 have "length pre \<le> length pre2" by blast
  moreover from l2 t o have "length pre2 \<le> length pre" by blast
  ultimately have "length pre = length pre2" by simp
  with t t2 have r: "r2 = r" by simp
  from s o2 r have "length sep2 \<le> length sep" by blast
  moreover from s2 o r have "length sep \<le> length sep2" by blast
  ultimately have ls: "length sep = length sep2" by simp
  from o obtain rest where d: "drop 5 r = sep @ g @ rest"
    by (auto simp: occursAt_iff occursAfter_def)
  from o2 r obtain rest2 where d2: "drop 5 r = sep2 @ h @ rest2"
    by (auto simp: occursAt_iff occursAfter_def)
  from d d2 ls have e: "sep2 = sep" and gh: "g @ rest = h @ rest2" by simp_all
  from k o2 r e have "length h \<le> length g" by blast
  moreover from k2 o r e have "length g \<le> length h" by blast
  ultimately have "length g = length h" by simp
  with gh show ?thesis by simp
qed

lemma labelMatch_iff:
  "(labelMatch t = Some g) = isLabelMatch t g"
  "(labelMatch t = None) = noLabelMatch t"
proof -
  have x: "\<not> (isLabelMatch t h \<and> noLabelMatch t)" for h
    unfolding isLabelMatch_def noLabelMatch_def by blast
  show "(labelMatch t = Some g) = isLabelMatch t g"
  proof
    assume "labelMatch t = Some g"
    then show "isLabelMatch t g" by (rule labelMatch_isLabelMatch)
  next
    assume i: "isLabelMatch t g"
    show "labelMatch t = Some g"
    proof (cases "labelMatch t")
      case None
      from labelMatch_noLabelMatch [OF None] i x show ?thesis by blast
    next
      case (Some h)
      from isLabelMatch_unique [OF i labelMatch_isLabelMatch [OF Some]] Some
      show ?thesis by simp
    qed
  qed
  show "(labelMatch t = None) = noLabelMatch t"
  proof
    assume "labelMatch t = None"
    then show "noLabelMatch t" by (rule labelMatch_noLabelMatch)
  next
    assume n: "noLabelMatch t"
    show "labelMatch t = None"
    proof (cases "labelMatch t")
      case None
      then show ?thesis .
    next
      case (Some h)
      from labelMatch_isLabelMatch [OF Some] n x show ?thesis by blast
    qed
  qed
qed


subsection \<open>The label of a summary\<close>





lemmas label_defs = matchAfterWord_def classA_def classB_def isSpace_def lower_def trim_def


text \<open>The label pattern on four texts: the matcher gives a blank of the separator
  back to the group, and takes a no-break space for white space.\<close>

lemma labelMatch_examples:
  "labelMatch (lit ''Your Task label: fix bug }'') = Some (lit ''fix bug '')"
  "labelMatch (lit ''Label: }'') = Some (lit '' '')"
  "labelMatch (lit ''no such word'') = None"
  "labelMatch (lit ''label'' @ [160] @ lit ''x'') = Some (lit ''x'')"
  by (simp_all add: lit_def label_defs)

text \<open>
  X7. The match and the trimmed text are determined by the text: the pattern occurs
  nowhere or the text has a match, never both and never two matches, and every text
  has exactly one trimmed form.
\<close>

theorem label_match_determined:
  "(noLabelMatch t \<or> (\<exists>g. isLabelMatch t g))
   \<and> \<not> (noLabelMatch t \<and> isLabelMatch t g)
   \<and> (isLabelMatch t g \<and> isLabelMatch t h \<longrightarrow> g = h)
   \<and> (\<exists>u. isTrimOf g u)
   \<and> (isTrimOf g u \<and> isTrimOf g v \<longrightarrow> u = v)"
proof (intro conjI impI)
  show "noLabelMatch t \<or> (\<exists>g. isLabelMatch t g)"
    by (cases "labelMatch t") (auto simp: labelMatch_iff [symmetric])
  show "\<not> (noLabelMatch t \<and> isLabelMatch t g)"
    by (auto simp: labelMatch_iff [symmetric])
  show "g = h" if "isLabelMatch t g \<and> isLabelMatch t h"
    using that isLabelMatch_unique by blast
  show "\<exists>u. isTrimOf g u"
    using trim_isTrimOf by blast
  show "u = v" if "isTrimOf g u \<and> isTrimOf g v"
    using that isTrimOf_unique [of g u] isTrimOf_unique [of g v] by simp
qed

theorem label_match_determined_witness:
  "isLabelMatch (lit ''Label: }'') (lit '' '')
   \<and> \<not> isLabelMatch (lit ''Label: }'') (lit ''Label'')
   \<and> isTrimOf (lit '' fix bug '') (lit ''fix bug'')
   \<and> \<not> isTrimOf (lit '' fix bug '') (lit ''fix bug '')"
proof -
  have a: "isLabelMatch (lit ''Label: }'') (lit '' '')"
    by (simp add: labelMatch_iff(1) [symmetric] lit_def label_defs)
  have b: "isTrimOf (lit '' fix bug '') (lit ''fix bug'')"
    using trim_isTrimOf [of "lit '' fix bug ''"] by (simp add: lit_def trim_def isSpace_def)
  from label_match_determined [of "lit ''Label: }''" "lit '' ''" "lit ''Label''"] a
  have c: "\<not> isLabelMatch (lit ''Label: }'') (lit ''Label'')"
    by auto
  from label_match_determined [of _ "lit '' fix bug ''" _ "lit ''fix bug''" "lit ''fix bug ''"] b
  have d: "\<not> isTrimOf (lit '' fix bug '') (lit ''fix bug '')"
    by auto
  from a b c d show ?thesis by blast
qed


section \<open>One session\<close>

lemma answer_not_404: "answer r \<noteq> Inl NotFound404"
  by (simp add: answer_def split: sum.splits)

lemma find_Some_set: "find P xs = Some x \<Longrightarrow> x \<in> set xs \<and> P x"
  by (induction xs) (auto split: if_splits)

lemma getSession_cases:
  "getSession rt resolve dir sid =
     (case resolve (sid @ lit ''.jsonl'') of
        Some f \<Rightarrow> answer (parseSessionFile rt f)
      | None \<Rightarrow>
         (case dir of
            None \<Rightarrow> Inl ServerError500
          | Some entries \<Rightarrow>
             (case find (isArchivedVariant sid) entries of
                Some f \<Rightarrow> answer (parseSessionFile rt f)
              | None \<Rightarrow> Inl NotFound404)))"
proof -
  have b: "(\<lambda>f. startsWith (fileName f) (sid @ lit ''.jsonl.deleted'')) = isArchivedVariant sid"
    by (rule ext) (simp add: isArchivedVariant_def)
  show ?thesis
    unfolding getSession_def b
    by (simp add: answer_def split: option.splits sum.splits)
qed

text \<open>
  C7. For every identifier, with or without separators: when the path made of the
  identifier and \<^verbatim>\<open>.jsonl\<close> exists, the answer is what summarizing the file at that
  path gives. When it does not exist and a name of the directory starts with the
  identifier, \<^verbatim>\<open>.jsonl\<close> and the marker \<^verbatim>\<open>.deleted\<close>, the answer is what summarizing
  the first such file gives. The answer is the not-found error exactly when the path
  does not exist, the directory can be listed and no name of it is such a variant;
  when the path does not exist and the directory cannot be listed, the answer is the
  server error. Summarizing answers with the summary, or with the server error,
  never with not-found.
\<close>

theorem getSession_resolution:
  "(\<forall>f. resolve (sid @ lit ''.jsonl'') = Some f \<longrightarrow>
        getSession rt resolve dir sid = answer (parseSessionFile rt f))
   \<and> (resolve (sid @ lit ''.jsonl'') = None \<longrightarrow>
        (\<forall>entries g. dir = Some entries \<and> find (isArchivedVariant sid) entries = Some g \<longrightarrow>
           getSession rt resolve dir sid = answer (parseSessionFile rt g)))
   \<and> ((getSession rt resolve dir sid = Inl NotFound404) =
        (resolve (sid @ lit ''.jsonl'') = None
         \<and> (\<exists>entries. dir = Some entries \<and> (\<forall>f\<in>set entries. \<not> isArchivedVariant sid f))))
   \<and> (resolve (sid @ lit ''.jsonl'') = None \<and> dir = None \<longrightarrow>
        getSession rt resolve dir sid = Inl ServerError500)"
proof (intro conjI allI impI)
  fix f assume "resolve (sid @ lit ''.jsonl'') = Some f"
  then show "getSession rt resolve dir sid = answer (parseSessionFile rt f)"
    by (simp add: getSession_cases)
next
  fix entries g
  assume "resolve (sid @ lit ''.jsonl'') = None"
    and "dir = Some entries \<and> find (isArchivedVariant sid) entries = Some g"
  then show "getSession rt resolve dir sid = answer (parseSessionFile rt g)"
    by (simp add: getSession_cases)
next
  show "(getSession rt resolve dir sid = Inl NotFound404) =
        (resolve (sid @ lit ''.jsonl'') = None
         \<and> (\<exists>entries. dir = Some entries \<and> (\<forall>f\<in>set entries. \<not> isArchivedVariant sid f)))"
    by (auto simp: getSession_cases answer_not_404 find_None_iff
             dest: find_Some_set split: option.splits)
next
  assume "resolve (sid @ lit ''.jsonl'') = None \<and> dir = None"
  then show "getSession rt resolve dir sid = Inl ServerError500"
    by (simp add: getSession_cases)
qed

theorem getSession_resolution_witness:
  "map_sum id sessionId (getSession plainRuntime samplePaths (Some sampleDir) (lit ''./def456''))
     = Inr (lit ''def456'')
   \<and> map_sum id status (getSession plainRuntime samplePaths (Some sampleDir) (lit ''abc123''))
     = Inr ''archived''
   \<and> getSession plainRuntime samplePaths (Some sampleDir) (lit ''0a1b2c'') = Inl NotFound404
   \<and> getSession plainRuntime samplePaths None (lit ''0a1b2c'') = Inl ServerError500"
proof -
  have a: "samplePaths (lit ''./def456'' @ lit ''.jsonl'') = Some otherLog"
    and b: "samplePaths (lit ''abc123'' @ lit ''.jsonl'') = None"
    and c: "samplePaths (lit ''0a1b2c'' @ lit ''.jsonl'') = None"
    by (simp_all add: samplePaths_def archivedLog_def logFile_def lit_def)
  have d: "find (isArchivedVariant (lit ''abc123'')) sampleDir = Some archivedLog"
    and e: "\<forall>f\<in>set sampleDir. \<not> isArchivedVariant (lit ''0a1b2c'') f"
    by (simp_all add: isArchivedVariant_def sampleDir_def otherLog_def archivedLog_def
          logFile_def lit_def)
  from getSession_resolution [of samplePaths "lit ''./def456''" plainRuntime "Some sampleDir"] a
  have "getSession plainRuntime samplePaths (Some sampleDir) (lit ''./def456'')
          = answer (parseSessionFile plainRuntime otherLog)"
    by blast
  then have "map_sum id sessionId
      (getSession plainRuntime samplePaths (Some sampleDir) (lit ''./def456''))
     = Inr (lit ''def456'')"
    by (simp add: answer_def otherLog_def usageLines_def model_defs sample_defs)
  moreover
  from getSession_resolution [of samplePaths "lit ''abc123''" plainRuntime "Some sampleDir"] b d
  have "getSession plainRuntime samplePaths (Some sampleDir) (lit ''abc123'')
          = answer (parseSessionFile plainRuntime archivedLog)"
    by blast
  then have "map_sum id status
      (getSession plainRuntime samplePaths (Some sampleDir) (lit ''abc123'')) = Inr ''archived''"
    by (simp add: answer_def archivedLog_def model_defs sample_defs)
  moreover
  from getSession_resolution [of samplePaths "lit ''0a1b2c''" plainRuntime "Some sampleDir"] c e
  have "getSession plainRuntime samplePaths (Some sampleDir) (lit ''0a1b2c'') = Inl NotFound404"
    by blast
  moreover
  from getSession_resolution [of samplePaths "lit ''0a1b2c''" plainRuntime None] c
  have "getSession plainRuntime samplePaths None (lit ''0a1b2c'') = Inl ServerError500"
    by blast
  ultimately show ?thesis by blast
qed


section \<open>The listing\<close>

lemmas window_defs = parseInt_def isSpace_def isDigitOf_def digitVal_def digitsValue_def
  activeMinutes_def cutoffOf_def numSub_def lt_def includeArchived_def isCandidate_def
  endsWith_def candidates_def

lemma lt_int [simp]: "lt (Fin (of_int a)) (Fin (of_int b)) = (a < b)"
  by (auto simp: lt_def)

text \<open>A window of a whole number of minutes, up to some 190 years, and a time that a
  \<^verbatim>\<open>Date\<close> can hold: the arithmetic of line 137 is exact.\<close>

lemma cutoff_minutes:
  assumes "isTime now" and "\<bar>m\<bar> \<le> 100000000"
  shows "cutoffOf now (Fin (of_int m)) = Fin (of_int (now - m * 60000))"
proof -
  from assms(2) have a: "\<bar>m * 60\<bar> \<le> 2 ^ 53" and b: "\<bar>m * 60 * 1000\<bar> \<le> 2 ^ 53"
    by (simp_all add: abs_mult)
  from assms have c: "\<bar>now - m * 60000\<bar> \<le> 2 ^ 53"
    by (simp add: isTime_def)
  have "numMul (Fin (of_int m)) (Fin 60) = Fin (of_int (m * 60))"
    using toDouble_int [OF a] by simp
  moreover have "numMul (Fin (of_int (m * 60))) (Fin 1000) = Fin (of_int (m * 60 * 1000))"
    using toDouble_int [OF b] by simp
  moreover have "numSub (Fin (of_int now)) (Fin (of_int (m * 60 * 1000)))
       = Fin (of_int (now - m * 60000))"
    using toDouble_int [OF c] by (simp add: numSub_def mult.commute)
  ultimately show ?thesis by (simp add: cutoffOf_def)
qed

lemma cutoff_default:
  "isTime now \<Longrightarrow> cutoffOf now (Fin 1440) = Fin (of_int (now - 86400000))"
  using cutoff_minutes [of now 1440] by simp

lemma parseInt_undefined: "parseInt (lit ''undefined'') = NaN"
  by (simp add: parseInt_def lit_def isSpace_def isDigitOf_def digitVal_def)

lemma scan_skips_failure:
  assumes "fileStats f = Some st" and "parseSessionFile rt f = Inl e"
  shows "scan rt cutoff (xs @ f # ys) acc = scan rt cutoff (xs @ ys) acc"
  using assms
  by (induction xs arbitrary: acc) (auto split: option.splits sum.splits)

lemma scan_recent:
  "\<forall>f\<in>set files. fileStats f \<noteq> None \<Longrightarrow>
   scan rt (Fin (of_int cutoff)) files acc = Inr (acc @ recentSummaries rt cutoff files)"
  by (induction files arbitrary: acc)
     (auto simp: recentSummaries_def split: option.splits sum.splits)

lemma listSessions_recent:
  assumes "\<forall>f\<in>set (candidates q entries). fileStats f \<noteq> None"
    and "cutoffOf now (activeMinutes q) = Fin (of_int c)"
  shows "listSessions rt now q (Some entries) =
           Inr \<lparr>count = length (recentSummaries rt c (candidates q entries)),
                sessions = sort_key (\<lambda>s. - lastUpdated s)
                             (recentSummaries rt c (candidates q entries))\<rparr>"
  using scan_recent [OF assms(1), of rt c "[]"] assms(2)
  by (simp add: listSessions_def Let_def candidates_def)

text \<open>
  C9. A recency window that \<^verbatim>\<open>parseInt\<close> reads as \<^verbatim>\<open>NaN\<close> or as zero (the text \<^verbatim>\<open>0\<close>
  is one) is the window of 1440 minutes that an absent parameter gives, and the
  whole listing is the same as without the parameter. When the metadata of every
  candidate can be read it is the listing of the last 86 400 000 milliseconds: the
  summaries of the candidates that were modified at that distance from now, or
  nearer, and can be summarized, the latest first.
\<close>

theorem window_default:
  assumes "parseInt s = NaN \<or> parseInt s = Fin 0"
  shows "activeMinutes \<lparr>activeMinutesParam = Some s, includeArchivedParam = a\<rparr> = Fin 1440
       \<and> activeMinutes \<lparr>activeMinutesParam = None, includeArchivedParam = a\<rparr> = Fin 1440
       \<and> listSessions rt now \<lparr>activeMinutesParam = Some s, includeArchivedParam = a\<rparr> dir
           = listSessions rt now \<lparr>activeMinutesParam = None, includeArchivedParam = a\<rparr> dir
       \<and> (isTime now
            \<and> (\<forall>f\<in>set (candidates \<lparr>activeMinutesParam = Some s, includeArchivedParam = a\<rparr>
                           entries). fileStats f \<noteq> None) \<longrightarrow>
          listSessions rt now \<lparr>activeMinutesParam = Some s, includeArchivedParam = a\<rparr>
              (Some entries)
            = Inr \<lparr>count = length (recentSummaries rt (now - 86400000)
                      (candidates \<lparr>activeMinutesParam = Some s, includeArchivedParam = a\<rparr>
                         entries)),
                   sessions = sort_key (\<lambda>s. - lastUpdated s)
                     (recentSummaries rt (now - 86400000)
                        (candidates \<lparr>activeMinutesParam = Some s, includeArchivedParam = a\<rparr>
                           entries))\<rparr>)"
proof -
  have s: "activeMinutes \<lparr>activeMinutesParam = Some s, includeArchivedParam = a\<rparr> = Fin 1440"
    using assms by (auto simp: activeMinutes_def)
  have n: "activeMinutes \<lparr>activeMinutesParam = None, includeArchivedParam = a\<rparr> = Fin 1440"
    by (simp add: activeMinutes_def parseInt_undefined)
  have e: "listSessions rt now \<lparr>activeMinutesParam = Some s, includeArchivedParam = a\<rparr> dir
           = listSessions rt now \<lparr>activeMinutesParam = None, includeArchivedParam = a\<rparr> dir"
    using s n by (cases dir) (simp_all add: listSessions_def includeArchived_def)
  have "listSessions rt now \<lparr>activeMinutesParam = Some s, includeArchivedParam = a\<rparr>
              (Some entries)
            = Inr \<lparr>count = length (recentSummaries rt (now - 86400000)
                      (candidates \<lparr>activeMinutesParam = Some s, includeArchivedParam = a\<rparr>
                         entries)),
                   sessions = sort_key (\<lambda>s. - lastUpdated s)
                     (recentSummaries rt (now - 86400000)
                        (candidates \<lparr>activeMinutesParam = Some s, includeArchivedParam = a\<rparr>
                           entries))\<rparr>"
    if "isTime now"
      and "\<forall>f\<in>set (candidates \<lparr>activeMinutesParam = Some s, includeArchivedParam = a\<rparr>
                           entries). fileStats f \<noteq> None"
    using listSessions_recent [OF that(2), of now "now - 86400000" rt]
      cutoff_default [OF that(1)] s
    by simp
  with s n e show ?thesis by blast
qed

theorem window_default_witness:
  "map_sum id (\<lambda>r. map sessionId (sessions r))
     (listSessions plainRuntime 100000000
        \<lparr>activeMinutesParam = Some (lit ''0''), includeArchivedParam = None\<rparr>
        (Some [usageLog, staleLog, recentLog])) = Inr [lit ''def456'']
   \<and> activeMinutes \<lparr>activeMinutesParam = Some (lit ''soon''), includeArchivedParam = None\<rparr>
       = Fin 1440
   \<and> activeMinutes \<lparr>activeMinutesParam = Some ([160] @ lit ''90''), includeArchivedParam = None\<rparr>
       = Fin 90"
proof -
  have z: "parseInt (lit ''0'') = NaN \<or> parseInt (lit ''0'') = Fin 0"
    and w: "parseInt (lit ''soon'') = NaN \<or> parseInt (lit ''soon'') = Fin 0"
    by (simp_all add: parseInt_def lit_def isSpace_def isDigitOf_def digitVal_def
          digitsValue_def)
  have t: "isTime 100000000
     \<and> (\<forall>f\<in>set (candidates \<lparr>activeMinutesParam = Some (lit ''0''), includeArchivedParam = None\<rparr>
                    [usageLog, staleLog, recentLog]). fileStats f \<noteq> None)"
    by (simp add: isTime_def candidates_def usageLog_def staleLog_def recentLog_def logFile_def)
  from window_default [OF z, of None plainRuntime 100000000 None "[usageLog, staleLog, recentLog]"] t
  have "listSessions plainRuntime 100000000
          \<lparr>activeMinutesParam = Some (lit ''0''), includeArchivedParam = None\<rparr>
          (Some [usageLog, staleLog, recentLog])
        = Inr \<lparr>count = length (recentSummaries plainRuntime (100000000 - 86400000)
                  (candidates \<lparr>activeMinutesParam = Some (lit ''0''), includeArchivedParam = None\<rparr>
                     [usageLog, staleLog, recentLog])),
               sessions = sort_key (\<lambda>s. - lastUpdated s)
                 (recentSummaries plainRuntime (100000000 - 86400000)
                    (candidates \<lparr>activeMinutesParam = Some (lit ''0''), includeArchivedParam = None\<rparr>
                       [usageLog, staleLog, recentLog]))\<rparr>"
    by blast
  then have "map_sum id (\<lambda>r. map sessionId (sessions r))
     (listSessions plainRuntime 100000000
        \<lparr>activeMinutesParam = Some (lit ''0''), includeArchivedParam = None\<rparr>
        (Some [usageLog, staleLog, recentLog])) = Inr [lit ''def456'']"
    by (simp add: recentSummaries_def candidates_def includeArchived_def isCandidate_def
          endsWith_def usageLog_def staleLog_def recentLog_def usageLines_def model_defs
          sample_defs)
  moreover from window_default [OF w, of None]
  have "activeMinutes \<lparr>activeMinutesParam = Some (lit ''soon''), includeArchivedParam = None\<rparr>
       = Fin 1440"
    by blast
  moreover
  have "activeMinutes \<lparr>activeMinutesParam = Some ([160] @ lit ''90''), includeArchivedParam = None\<rparr>
       = Fin 90"
    by (simp add: activeMinutes_def parseInt_def lit_def isSpace_def isDigitOf_def digitVal_def
          digitsValue_def)
  ultimately show ?thesis by blast
qed

text \<open>
  X1. A file whose metadata can be read and whose summarization fails (the read fails,
  or a line decodes to \<^verbatim>\<open>null\<close>) changes nothing in the listing: the answer is the
  answer for the directory without it.
\<close>

theorem summarization_failure_is_isolated:
  assumes "fileStats f = Some st" and "parseSessionFile rt f = Inl e"
  shows "listSessions rt now q (Some (xs @ f # ys)) = listSessions rt now q (Some (xs @ ys))"
  using scan_skips_failure [OF assms]
  by (simp add: listSessions_def Let_def)

theorem summarization_failure_is_isolated_witness:
  "listSessions plainRuntime 2000 noQuery (Some [usageLog, nullLineLog, otherLog])
     = listSessions plainRuntime 2000 noQuery (Some [usageLog, otherLog])
   \<and> map_sum id count (listSessions plainRuntime 2000 noQuery (Some [usageLog, otherLog]))
     = Inr 2"
proof -
  have s: "fileStats nullLineLog = Some \<lparr>mtime = 1000, birthtime = 1000\<rparr>"
    by (simp add: nullLineLog_def logFile_def)
  have p: "parseSessionFile plainRuntime nullLineLog = Inl TypeError"
    by (simp add: nullLineLog_def model_defs sample_defs)
  from summarization_failure_is_isolated [OF s p, of 2000 noQuery "[usageLog]" "[otherLog]"]
  have "listSessions plainRuntime 2000 noQuery (Some [usageLog, nullLineLog, otherLog])
     = listSessions plainRuntime 2000 noQuery (Some [usageLog, otherLog])"
    by simp
  moreover have "map_sum id count (listSessions plainRuntime 2000 noQuery (Some [usageLog, otherLog]))
     = Inr 2"
    by (simp add: listSessions_def noQuery_def window_defs
          usageLog_def otherLog_def usageLines_def model_defs sample_defs)
  ultimately show ?thesis by simp
qed

text \<open>
  X2. When the metadata of every candidate can be read and the window is a whole
  number of minutes, the listing counts exactly the candidates that are recent
  enough and can be summarized.
\<close>

theorem listing_is_recent_summaries:
  assumes "\<forall>f\<in>set (candidates q entries). fileStats f \<noteq> None"
    and "isTime now" and "activeMinutes q = Fin (of_int m)" and "\<bar>m\<bar> \<le> 100000000"
  shows "map_sum id count (listSessions rt now q (Some entries)) =
           Inr (length (recentSummaries rt (now - m * 60000) (candidates q entries)))"
  using listSessions_recent [OF assms(1), of now "now - m * 60000" rt]
    cutoff_minutes [OF assms(2,4)] assms(3)
  by simp

theorem listing_is_recent_summaries_witness:
  "map_sum id count
     (listSessions plainRuntime 2000 noQuery (Some [usageLog, nullLineLog, otherLog])) = Inr 2"
proof -
  have c: "\<forall>f\<in>set (candidates noQuery [usageLog, nullLineLog, otherLog]). fileStats f \<noteq> None"
    by (simp add: candidates_def usageLog_def nullLineLog_def otherLog_def logFile_def)
  have m: "activeMinutes noQuery = Fin (of_int 1440)"
    by (simp add: noQuery_def activeMinutes_def parseInt_undefined)
  have "isTime 2000" and "\<bar>1440 :: int\<bar> \<le> 100000000"
    by (simp_all add: isTime_def)
  from listing_is_recent_summaries [OF c this(1) m this(2), of plainRuntime] show ?thesis
    by (simp add: recentSummaries_def noQuery_def window_defs
          usageLog_def otherLog_def nullLineLog_def usageLines_def
          model_defs sample_defs)
qed

text \<open>
  C2. The claim is that a failure on one candidate file only drops that file from
  the listing. The source reads the metadata of a candidate (line 151) outside the
  \<^verbatim>\<open>try\<close> that guards its summarization: with one name whose metadata cannot be
  read between two good logs, the whole request fails, where the two good logs
  alone give two summaries.
\<close>

theorem scan_aborts_on_unreadable_metadata:
  "listSessions plainRuntime 2000 noQuery (Some [usageLog, danglingEntry, otherLog])
     = Inl ServerError500
   \<and> map_sum id count (listSessions plainRuntime 2000 noQuery (Some [usageLog, otherLog]))
     = Inr 2"
  by (simp add: listSessions_def noQuery_def window_defs
        usageLog_def otherLog_def danglingEntry_def usageLines_def
        model_defs sample_defs)


section \<open>Further properties of a summary\<close>

lemma parseLines_count:
  assumes "parseLines rt fn st lines = Inr s"
  shows "messageCount s = length (filter isMessage lines)"
proof -
  from assms obtain ms where ms: "filterE isMessageLine lines = Inr ms"
    by (auto simp: parseLines_def Let_def split: sum.splits)
  have "ms = filter isMessage lines" by (rule filterE_message [OF ms])
  with assms ms show ?thesis
    by (auto simp: parseLines_def Let_def split: sum.splits)
qed

text \<open>
  X3. The message count of a summary is the number of message events with a truthy
  payload, not the number of lines.
\<close>

theorem messageCount_counts_messages:
  assumes "parseSessionFile rt f = Inr s" and "fileLines f = Some ls"
  shows "messageCount s = length (filter isMessage (decoded ls))"
proof -
  from parseSessionFile_InrD [OF assms(1)] assms(2) obtain st
    where "parseLines rt (fileName f) st (decoded ls) = Inr s" by auto
  then show ?thesis by (rule parseLines_count)
qed

theorem messageCount_counts_messages_witness:
  "map_sum id messageCount (parseSessionFile plainRuntime usageLog) = Inr 2"
proof -
  obtain s where p: "parseSessionFile plainRuntime usageLog = Inr s"
    by (simp add: usageLog_def usageLines_def model_defs sample_defs)
  have l: "fileLines usageLog = Some (map Some usageLines)"
    by (simp add: usageLog_def logFile_def)
  from messageCount_counts_messages [OF p l] p show ?thesis
    by (simp add: decoded_map_Some usageLines_def sample_defs isMessage_def)
qed

text \<open>
  X4. A log without a decodable line is summarized with the defaults: no tokens, no
  cost, no messages, the model \<^verbatim>\<open>unknown\<close>, the status \<^verbatim>\<open>idle\<close> or, under an
  archived name, \<^verbatim>\<open>archived\<close>. The label is \<^verbatim>\<open>Main\<close> unless the identifier taken
  from the name contains \<^verbatim>\<open>subagent\<close>.
\<close>

theorem empty_log_defaults:
  assumes "fileStats f = Some st" and "fileLines f = Some ls" and "decoded ls = []"
  shows "parseSessionFile rt f =
     Inr \<lparr>sessionId = extractSessionId (fileName f),
          sessionKey = extractSessionId (fileName f),
          label = JStr (if includes_str (extractSessionId (fileName f)) (lit ''subagent'')
                        then lit ''Sub-agent'' else lit ''Main''),
          model = JStr (lit ''unknown''), totalTokens = JNum (Fin 0), totalCost = JNum (Fin 0),
          status = (if includes_str (fileName f) (lit ''.deleted'') then ''archived'' else ''idle''),
          messageCount = 0, lastUpdated = mtime st, createdAt = birthtime st,
          filePath = fileName f, isDeleted = includes_str (fileName f) (lit ''.deleted'')\<rparr>"
  using assms
  by (simp add: parseSessionFile_def parseLines_def resolveSessionKey_def resolveLabel_def
        overrideModel_def resolveStatus_def initialTotals_def Let_def)

theorem empty_log_defaults_witness:
  "parseSessionFile plainRuntime blankLog =
     Inr \<lparr>sessionId = lit ''abc123'', sessionKey = lit ''abc123'', label = JStr (lit ''Main''),
          model = JStr (lit ''unknown''), totalTokens = JNum (Fin 0), totalCost = JNum (Fin 0),
          status = ''idle'', messageCount = 0, lastUpdated = 1000, createdAt = 900,
          filePath = lit ''abc123.jsonl'', isDeleted = False\<rparr>"
proof -
  have "fileStats blankLog = Some \<lparr>mtime = 1000, birthtime = 900\<rparr>"
    and "fileLines blankLog = Some [None, None]" and "decoded [None, None] = []"
    by (simp_all add: blankLog_def)
  from empty_log_defaults [OF this, of plainRuntime] show ?thesis
    by (simp add: blankLog_def extractSessionId_def isHexDash_def lit_def)
qed

text \<open>
  X5. A log with a line that decodes to \<^verbatim>\<open>null\<close> is not summarized: the callback of
  \<^verbatim>\<open>find\<close> or \<^verbatim>\<open>filter\<close> throws on that line.
\<close>

theorem null_line_fails:
  assumes "fileLines f = Some ls" and "JNull \<in> set (decoded ls)"
  shows "\<exists>e. parseSessionFile rt f = Inl e"
proof (cases "parseSessionFile rt f")
  case (Inl e)
  then show ?thesis by blast
next
  case (Inr s)
  from parseSessionFile_InrD [OF Inr] assms(1) obtain st
    where "parseLines rt (fileName f) st (decoded ls) = Inr s" by auto
  from parseLines_InrD(1) [OF this] assms(2) show ?thesis by simp
qed

theorem null_line_fails_witness:
  "parseSessionFile plainRuntime nullLineLog = Inl TypeError"
proof -
  have "fileLines nullLineLog = Some [Some JNull]" and "JNull \<in> set (decoded [Some JNull])"
    by (simp_all add: nullLineLog_def logFile_def)
  from null_line_fails [OF this, of plainRuntime] show ?thesis
    by (simp add: nullLineLog_def model_defs sample_defs)
qed

section \<open>The order of the listing\<close>

lemma sorted_negated:
  fixes g :: "'a \<Rightarrow> int"
  shows "sorted (map (\<lambda>x. - g x) xs) \<Longrightarrow> sorted (rev (map g xs))"
  by (induction xs) (auto simp: sorted_append)

text \<open>
  X6. The sessions of a listing are in descending order of \<open>lastUpdated\<close>, and the
  count is their number.
\<close>

theorem listing_is_ordered:
  assumes "listSessions rt now q dir = Inr r"
  shows "sorted (rev (map lastUpdated (sessions r))) \<and> count r = length (sessions r)"
proof -
  from assms obtain found
    where r: "r = \<lparr>count = length (sort_key (\<lambda>s. - lastUpdated s) found),
                   sessions = sort_key (\<lambda>s. - lastUpdated s) found\<rparr>"
    by (auto simp: listSessions_def Let_def split: option.splits sum.splits)
  have "sorted (map (\<lambda>s. - lastUpdated s) (sort_key (\<lambda>s. - lastUpdated s) found))"
    by (rule sorted_sort_key)
  then have "sorted (rev (map lastUpdated (sort_key (\<lambda>s. - lastUpdated s) found)))"
    by (rule sorted_negated)
  with r show ?thesis by simp
qed

theorem listing_is_ordered_witness:
  "map_sum id (\<lambda>r. map lastUpdated (sessions r))
     (listSessions plainRuntime 2000 noQuery (Some [usageLog, newerLog])) = Inr [1500, 1000]"
proof -
  obtain r where r: "listSessions plainRuntime 2000 noQuery (Some [usageLog, newerLog]) = Inr r"
    and m: "map lastUpdated (sessions r) = [1500, 1000]"
    by (simp add: listSessions_def noQuery_def window_defs
          usageLog_def newerLog_def usageLines_def model_defs sample_defs)
  from listing_is_ordered [OF r] r m show ?thesis by simp
qed

end
